theory Spec2Isabelle
  imports Complex_Main "HOL-Library.Word"
begin

section \<open>SpeechCore demo client: audio utilities of voice-recognition-page.tsx\<close>

text \<open>
  The embedding follows \<^verbatim>\<open>src/SpeechCore_Demo/app/App.tsx\<close> (the part headed
  \<^verbatim>\<open>voice-recognition-page.tsx\<close>). JavaScript numbers are IEEE doubles and the
  sample buffers are \<^verbatim>\<open>Float32Array\<close>s. A double or a float32 is the \<^typ>\<open>real\<close>
  it denotes, and an arithmetic operation of the source whose result need not be a
  double is followed by the rounding to the nearest double (\<open>fl\<close> below), a store into
  a \<^verbatim>\<open>Float32Array\<close> by the rounding to the nearest float32 (\<open>fr32\<close>). This is so
  in \<^verbatim>\<open>resample\<close> and in the silence test of \<^verbatim>\<open>flushChunk\<close>. The products of
  \<^verbatim>\<open>toWav\<close> (a float32 sample by \<^verbatim>\<open>0x8000\<close> or \<^verbatim>\<open>0x7fff\<close>, a size by 2)
  are doubles already and carry no rounding. NaN and the infinities have no value here:
  where the source can produce one (a division by zero), the model has a branch of its
  own for it. Integers written through a \<^verbatim>\<open>DataView\<close> are machine words. Exceptions
  are values of \<open>js_error\<close>.
\<close>

type_synonym sample = real
type_synonym byte = "8 word"

datatype js_error = RangeError

subsection \<open>Constants\<close>

definition TARGET_SR :: real where
  "TARGET_SR = 16000"

subsection \<open>Number conversions of the language\<close>

text \<open>\<^verbatim>\<open>Math.round\<close>: the nearest integer, a tie going towards plus infinity.\<close>

definition js_round :: "real \<Rightarrow> int" where
  "js_round x = \<lfloor>x + 1 / 2\<rfloor>"

text \<open>The integer conversion of the \<^verbatim>\<open>DataView\<close> setters truncates towards zero.\<close>

definition js_trunc :: "real \<Rightarrow> int" where
  "js_trunc x = (if x < 0 then \<lceil>x\<rceil> else \<lfloor>x\<rfloor>)"

subsection \<open>Rounding\<close>

text \<open>
  Rounding to the nearest integer, a tie going to the even one, is the rounding of a
  significand in the default mode of IEEE 754.
\<close>

definition round_even :: "real \<Rightarrow> int" where
  "round_even y =
     (let f = \<lfloor>y\<rfloor>; d = y - of_int f
      in if d < 1 / 2 then f else if 1 / 2 < d then f + 1
         else if even f then f else f + 1)"

text \<open>
  The exponent of the binade of \<open>x\<close>, that is \<open>e\<close> with \<open>2 ^ e \<le> \<bar>x\<bar> < 2 ^ (e + 1)\<close>,
  not below the least exponent \<open>emin\<close> of the format when there is one: below
  \<open>2 ^ emin\<close> the numbers of the format are equally spaced (gradual underflow).
\<close>

definition binade :: "int option \<Rightarrow> real \<Rightarrow> int" where
  "binade emin x =
     (case emin of None \<Rightarrow> \<lfloor>log 2 \<bar>x\<bar>\<rfloor> | Some m \<Rightarrow> max \<lfloor>log 2 \<bar>x\<bar>\<rfloor> m)"

text \<open>
  \<open>rnd p emin x\<close> is the number with a significand of \<open>p\<close> bits nearest to \<open>x\<close>: a
  multiple of the spacing \<open>u\<close> of the binade of \<open>x\<close>.
\<close>

definition rnd :: "nat \<Rightarrow> int option \<Rightarrow> real \<Rightarrow> real" where
  "rnd p emin x =
     (if x = 0 then 0
      else let u = 2 powr of_int (binade emin x - (int p - 1))
           in u * of_int (round_even (x / u)))"

text \<open>
  \<open>fl\<close> rounds to a double (53 bits) and \<open>fr32\<close> to a float32 (24 bits, least
  exponent -126). The exponent range of the doubles is not modelled, nor the largest
  exponent of the float32: the squares, sums and quotients that the page computes from
  float32 samples, and the ratios and positions it computes from the sample rate of an
  audio context (a few kHz to a few hundred kHz), stay far inside the range of the
  doubles, and a value interpolated between two float32 samples does not exceed the
  range of the float32.
\<close>

definition fl :: "real \<Rightarrow> real" where
  "fl = rnd 53 None"

definition fr32 :: "real \<Rightarrow> real" where
  "fr32 = rnd 24 (Some (- 126))"

text \<open>The literal \<^verbatim>\<open>0.004\<close> denotes the double nearest to 4/1000.\<close>

definition SILENCE :: real where
  "SILENCE = fl (4 / 1000)"

subsection \<open>resample\<close>

text \<open>\<^verbatim>\<open>f32[k] ?? 0\<close>: a read outside the array is \<^verbatim>\<open>undefined\<close>, replaced by 0.\<close>

definition rd0 :: "sample list \<Rightarrow> int \<Rightarrow> sample" where
  "rd0 f32 k = (if 0 \<le> k \<and> k < int (length f32) then f32 ! nat k else 0)"

text \<open>
  The body of the loop of \<^verbatim>\<open>resample\<close>, for output index \<open>i\<close>: the product, the
  differences and the sum are each rounded to a double, and the assignment to
  \<^verbatim>\<open>out[i]\<close> rounds the sum to a float32. The counter \<open>i\<close> and the integer \<open>idx\<close>
  are doubles as they are.
\<close>

definition resample_at :: "sample list \<Rightarrow> real \<Rightarrow> nat \<Rightarrow> sample" where
  "resample_at f32 ratio i =
     (let pos = fl (real i * ratio); idx = \<lfloor>pos\<rfloor>; frac = fl (pos - of_int idx);
          a = rd0 f32 idx; b = rd0 f32 (idx + 1)
      in fr32 (fl (a + fl (frac * fl (b - a)))))"

text \<open>
  \<^verbatim>\<open>f32.length / ratio\<close>. The length of a typed array is below \<open>2 ^ 53\<close> and so a
  double as it is; the quotient is rounded. A list of \<open>2 ^ 53\<close> elements or more stands
  for no array, and its quotient is left as it is.
\<close>

definition length_quotient :: "nat \<Rightarrow> real \<Rightarrow> real" where
  "length_quotient n ratio =
     (if real n < 2 ^ 53 then fl (real n / ratio) else real n / ratio)"

text \<open>
  \<^verbatim>\<open>new Float32Array(Math.round(f32.length / ratio))\<close> throws a RangeError for a
  negative length. When the ratio is 0 the quotient is \<open>Infinity\<close> (a RangeError) for a
  non-empty input and NaN (length 0) for an empty one.
\<close>

definition resample :: "sample list \<Rightarrow> real \<Rightarrow> js_error + sample list" where
  "resample f32 srcSR =
     (if srcSR = TARGET_SR then Inr f32
      else
        let ratio = fl (srcSR / TARGET_SR)
        in if ratio = 0 then (if f32 = [] then Inr [] else Inl RangeError)
           else
             let n = js_round (length_quotient (length f32) ratio)
             in if n < 0 then Inl RangeError
                else Inr (map (resample_at f32 ratio) [0..<nat n]))"

subsection \<open>toWav\<close>

text \<open>
  The \<^verbatim>\<open>ArrayBuffer\<close> is a list of bytes, zero at first. A \<^verbatim>\<open>DataView\<close> setter
  writes at a byte offset and throws a RangeError when the write does not fit.
\<close>

definition store :: "byte list \<Rightarrow> nat \<Rightarrow> byte list \<Rightarrow> js_error + byte list" where
  "store buf off bs =
     (if off + length bs \<le> length buf
      then Inr (take off buf @ bs @ drop (off + length bs) buf)
      else Inl RangeError)"

text \<open>Little-endian bytes of a word (the setters are called with \<^verbatim>\<open>true\<close>).\<close>

definition le16 :: "16 word \<Rightarrow> byte list" where
  "le16 w = [ucast w, ucast (drop_bit 8 w)]"

definition le32 :: "32 word \<Rightarrow> byte list" where
  "le32 w = [ucast w, ucast (drop_bit 8 w), ucast (drop_bit 16 w), ucast (drop_bit 24 w)]"

text \<open>
  A setter converts its numeric argument to an integer by truncation and reduces it
  modulo the width of the field.
\<close>

definition setUint8 :: "byte list \<Rightarrow> nat \<Rightarrow> real \<Rightarrow> js_error + byte list" where
  "setUint8 buf off x = store buf off [word_of_int (js_trunc x)]"

definition setUint16 :: "byte list \<Rightarrow> nat \<Rightarrow> real \<Rightarrow> js_error + byte list" where
  "setUint16 buf off x = store buf off (le16 (word_of_int (js_trunc x)))"

definition setUint32 :: "byte list \<Rightarrow> nat \<Rightarrow> real \<Rightarrow> js_error + byte list" where
  "setUint32 buf off x = store buf off (le32 (word_of_int (js_trunc x)))"

definition setInt16 :: "byte list \<Rightarrow> nat \<Rightarrow> real \<Rightarrow> js_error + byte list" where
  "setInt16 buf off x = store buf off (le16 (word_of_int (js_trunc x)))"

text \<open>The helper \<^verbatim>\<open>s(o, str)\<close>: one \<^verbatim>\<open>setUint8\<close> per character code.\<close>

fun put_str :: "byte list \<Rightarrow> nat \<Rightarrow> string \<Rightarrow> js_error + byte list" where
  "put_str buf off [] = Inr buf"
| "put_str buf off (c # cs) =
     (case setUint8 buf off (real (of_char c)) of
        Inl e \<Rightarrow> Inl e
      | Inr buf' \<Rightarrow> put_str buf' (Suc off) cs)"

text \<open>
  The clamp and the scaling of one sample:
  \<^verbatim>\<open>x = Math.max(-1, Math.min(1, f32[i]));  x < 0 ? x * 0x8000 : x * 0x7fff\<close>.
\<close>

definition clamp_sample :: "sample \<Rightarrow> real" where
  "clamp_sample v = max (- 1) (min 1 v)"

definition scale_sample :: "sample \<Rightarrow> real" where
  "scale_sample v = (let x = clamp_sample v in if x < 0 then x * 32768 else x * 32767)"

text \<open>The integer that \<^verbatim>\<open>setInt16\<close> is asked to write, and the word it writes.\<close>

definition sample_int :: "sample \<Rightarrow> int" where
  "sample_int v = js_trunc (scale_sample v)"

definition pcm16 :: "sample \<Rightarrow> 16 word" where
  "pcm16 v = word_of_int (sample_int v)"

text \<open>The sample loop of \<^verbatim>\<open>toWav\<close>, from index \<open>i\<close> on.\<close>

fun put_samples :: "byte list \<Rightarrow> nat \<Rightarrow> sample list \<Rightarrow> js_error + byte list" where
  "put_samples buf i [] = Inr buf"
| "put_samples buf i (v # vs) =
     (case setInt16 buf (44 + i * 2) (scale_sample v) of
        Inl e \<Rightarrow> Inl e
      | Inr buf' \<Rightarrow> put_samples buf' (Suc i) vs)"

text \<open>Sequencing of statements that may throw.\<close>

definition seq :: "js_error + 'a \<Rightarrow> ('a \<Rightarrow> js_error + 'b) \<Rightarrow> js_error + 'b" where
  "seq m f = (case m of Inl e \<Rightarrow> Inl e | Inr x \<Rightarrow> f x)"

definition toWav :: "sample list \<Rightarrow> real \<Rightarrow> js_error + byte list" where
  "toWav f32 sr =
     (let n = length f32; buf = replicate (44 + n * 2) (0 :: byte) in
      seq (put_str buf 0 ''RIFF'') (\<lambda>b.
      seq (setUint32 b 4 (real (36 + n * 2))) (\<lambda>b.
      seq (put_str b 8 ''WAVE'') (\<lambda>b.
      seq (put_str b 12 ''fmt '') (\<lambda>b.
      seq (setUint32 b 16 16) (\<lambda>b.
      seq (setUint16 b 20 1) (\<lambda>b.
      seq (setUint16 b 22 1) (\<lambda>b.
      seq (setUint32 b 24 sr) (\<lambda>b.
      seq (setUint32 b 28 (sr * 2)) (\<lambda>b.
      seq (setUint16 b 32 2) (\<lambda>b.
      seq (setUint16 b 34 16) (\<lambda>b.
      seq (put_str b 36 ''data'') (\<lambda>b.
      seq (setUint32 b 40 (real (n * 2))) (\<lambda>b.
      put_samples b 0 f32))))))))))))))"

subsection \<open>The layout of the waveform container\<close>

text \<open>
  What the writes of \<^verbatim>\<open>toWav\<close> amount to, as a value: the 44 bytes of the header
  followed by two bytes per sample. These definitions are not in the source; they state
  the layout against which the sequence of writes above is compared.
\<close>

definition str_bytes :: "string \<Rightarrow> byte list" where
  "str_bytes cs = map (\<lambda>c. word_of_int (int (of_char c))) cs"

definition wav_header :: "nat \<Rightarrow> real \<Rightarrow> byte list" where
  "wav_header n sr =
     str_bytes ''RIFF'' @ le32 (word_of_int (js_trunc (real (36 + n * 2)))) @
     str_bytes ''WAVE'' @
     str_bytes ''fmt '' @ le32 16 @ le16 1 @ le16 1 @ le32 (word_of_int (js_trunc sr)) @
     le32 (word_of_int (js_trunc (sr * 2))) @ le16 2 @ le16 16 @ str_bytes ''data'' @
     le32 (word_of_int (js_trunc (real (n * 2))))"

definition wav_data :: "sample list \<Rightarrow> byte list" where
  "wav_data f32 = concat (map (\<lambda>v. le16 (pcm16 v)) f32)"

text \<open>Reading a little-endian field back, as a decoder of the container does.\<close>

definition rd16 :: "byte list \<Rightarrow> nat \<Rightarrow> nat" where
  "rd16 w off = unat (w ! off) + 256 * unat (w ! (off + 1))"

definition rd32 :: "byte list \<Rightarrow> nat \<Rightarrow> nat" where
  "rd32 w off = unat (w ! off) + 256 * unat (w ! (off + 1))
     + 65536 * unat (w ! (off + 2)) + 16777216 * unat (w ! (off + 3))"

section \<open>The recording page: state, handlers and events\<close>

subsection \<open>Strings and server messages\<close>

text \<open>
  A JavaScript string is a sequence of UTF-16 code units. \<^verbatim>\<open>String.prototype.trim\<close>
  removes, at both ends, the code units that ECMAScript calls WhiteSpace or
  LineTerminator.
\<close>

type_synonym jsstring = "16 word list"

definition SPACE :: "16 word" where
  "SPACE = 0x20"

definition is_ws :: "16 word \<Rightarrow> bool" where
  "is_ws c = (c \<in> {0x09, 0x0A, 0x0B, 0x0C, 0x0D, 0x20, 0xA0, 0x1680, 0x2028, 0x2029,
                     0x202F, 0x205F, 0x3000, 0xFEFF}
              \<or> (0x2000 \<le> c \<and> c \<le> 0x200A))"

definition js_trim :: "jsstring \<Rightarrow> jsstring" where
  "js_trim s = rev (dropWhile is_ws (rev (dropWhile is_ws s)))"

text \<open>\<^verbatim>\<open>prev.endsWith(" ")\<close>.\<close>

definition endsWith_space :: "jsstring \<Rightarrow> bool" where
  "endsWith_space s = (s \<noteq> [] \<and> last s = SPACE)"

text \<open>
  The field \<^verbatim>\<open>transcription_complete\<close> of a result message: a falsy value (absent,
  null, the empty string) is replaced by \<^verbatim>\<open>""\<close>; a truthy value that is not a
  string has no \<^verbatim>\<open>trim\<close>, and the exception is swallowed by the handler's
  \<^verbatim>\<open>try/catch\<close>.
\<close>

datatype js_value = Falsy | Str jsstring | NonString

datatype server_msg =
    Status jsstring
  | Result js_value
  | ServerError jsstring
  | Unhandled

datatype LogTag = SEND | RECV | DROP | WARN | ERR

datatype WsStatus = Disconnected | Connecting | Ready | ErrorStatus

subsection \<open>State\<close>

text \<open>
  The React state and the refs of \<^verbatim>\<open>VoiceRecognitionPage\<close> that the pipeline
  reads or writes. A log line is represented by its tag and \<open>error_shown\<close> tells
  whether the \<^verbatim>\<open>error\<close> state holds a message. \<open>chunkTmr\<close> tells whether the
  interval timer behind \<^verbatim>\<open>chunkTmrRef\<close> is active, and \<open>procRef\<close>, \<open>streamRef\<close>,
  \<open>actxRef\<close> whether the ref holds its resource. The environment is part of the state:
  \<open>encoding\<close> are the blobs whose \<^verbatim>\<open>blobToBase64\<close> promise is pending and \<open>sockets\<close>
  the blobs whose WebSocket is open, so \<open>encoding @ sockets\<close> are the sends that have
  begun and not completed. \<open>pushed\<close> and \<open>dispatched\<close> are history variables, absent
  from the source: every chunk ever pushed onto \<^verbatim>\<open>wsQueueRef\<close>, and every chunk
  ever shifted from it, in order. The clock (\<^verbatim>\<open>statRtt\<close>, \<^verbatim>\<open>recordingTime\<close>) and
  the text of the log lines are left out.
\<close>

record client =
  isRecording :: bool
  transcript :: jsstring
  wsStatus :: WsStatus
  error_shown :: bool
  logs :: "LogTag list"
  statSent :: nat
  statDone :: nat
  streamRef :: bool
  actxRef :: bool
  procRef :: bool
  pcmBuf :: "sample list list"
  nativeSR :: real
  wsQueue :: "byte list list"
  wsBusy :: bool
  chunkTmr :: bool
  running :: bool
  encoding :: "byte list list"
  sockets :: "byte list list"
  pushed :: "byte list list"
  dispatched :: "byte list list"

text \<open>The sends that have begun and not completed.\<close>

definition outstanding :: "client \<Rightarrow> byte list list" where
  "outstanding s = encoding s @ sockets s"

subsection \<open>Handlers\<close>

text \<open>\<^verbatim>\<open>addLog\<close> keeps the last 199 lines and appends the new one.\<close>

definition addLog :: "LogTag \<Rightarrow> client \<Rightarrow> client" where
  "addLog tag s = s\<lparr>logs := drop (length (logs s) - 199) (logs s) @ [tag]\<rparr>"

text \<open>
  \<^verbatim>\<open>processQueue\<close>, up to the call of \<^verbatim>\<open>blobToBase64\<close>: the rest of its body runs
  when the promise resolves, in \<open>onEncoded\<close>.
\<close>

definition processQueue :: "client \<Rightarrow> client" where
  "processQueue s =
     (if wsBusy s \<or> wsQueue s = [] then s
      else
        let wav = hd (wsQueue s)
        in s\<lparr>wsQueue := tl (wsQueue s), wsBusy := True,
             encoding := encoding s @ [wav], dispatched := dispatched s @ [wav]\<rparr>)"

text \<open>Removing the entry at position \<open>k\<close>.\<close>

definition remove_nth :: "nat \<Rightarrow> 'a list \<Rightarrow> 'a list" where
  "remove_nth k xs = take k xs @ drop (Suc k) xs"

text \<open>
  The \<^verbatim>\<open>then\<close> callback for the pending conversion \<open>k\<close>. \<open>ctor_ok\<close> tells whether
  \<^verbatim>\<open>new WebSocket(WS_URL)\<close> returns; when it throws, the \<^verbatim>\<open>catch\<close> clause logs,
  clears the busy flag and calls \<^verbatim>\<open>processQueue\<close>. A rejected promise (a failing
  \<^verbatim>\<open>FileReader\<close> on a blob held in memory) has no handler in the source and no event
  here.
\<close>

definition onEncoded :: "nat \<Rightarrow> bool \<Rightarrow> client \<Rightarrow> client" where
  "onEncoded k ctor_ok s =
     (if k < length (encoding s) then
        let wav = encoding s ! k;
            s1 = s\<lparr>encoding := remove_nth k (encoding s)\<rparr>
        in if ctor_ok then addLog SEND (s1\<lparr>sockets := sockets s1 @ [wav]\<rparr>)
           else processQueue ((addLog ERR s1)\<lparr>wsBusy := False\<rparr>)
      else s)"

text \<open>The trimmed text of a result, \<open>None\<close> when \<^verbatim>\<open>trim\<close> is not a function.\<close>

definition result_text :: "js_value \<Rightarrow> jsstring option" where
  "result_text v =
     (case v of Falsy \<Rightarrow> Some (js_trim []) | Str t \<Rightarrow> Some (js_trim t)
      | NonString \<Rightarrow> None)"

text \<open>
  The updater given to \<^verbatim>\<open>setTranscript\<close>:
  \<^verbatim>\<open>prev + (prev && !prev.endsWith(" ") ? " " : "") + txt\<close>.
\<close>

definition append_chunk :: "jsstring \<Rightarrow> jsstring \<Rightarrow> jsstring" where
  "append_chunk prev txt =
     prev @ (if prev \<noteq> [] \<and> \<not> endsWith_space prev then [SPACE] else []) @ txt"

text \<open>\<^verbatim>\<open>ws.onmessage\<close> of socket \<open>k\<close>.\<close>

definition onmessage :: "nat \<Rightarrow> server_msg \<Rightarrow> client \<Rightarrow> client" where
  "onmessage k m s =
     (if k < length (sockets s) then
        (case m of
           Status _ \<Rightarrow> addLog RECV s
         | Result v \<Rightarrow>
             let s1 = s\<lparr>statDone := statDone s + 1\<rparr>
             in (case result_text v of
                   None \<Rightarrow> s1
                 | Some txt \<Rightarrow>
                     if txt \<noteq> []
                     then (addLog RECV s1)\<lparr>transcript := append_chunk (transcript s1) txt\<rparr>
                     else addLog WARN s1)
         | ServerError _ \<Rightarrow> addLog ERR s
         | Unhandled \<Rightarrow> s)
      else s)"

text \<open>\<^verbatim>\<open>ws.onerror\<close> and \<^verbatim>\<open>ws.onclose\<close> of socket \<open>k\<close>.\<close>

definition onerror :: "nat \<Rightarrow> client \<Rightarrow> client" where
  "onerror k s =
     (if k < length (sockets s)
      then (addLog ERR s)\<lparr>error_shown := True, wsStatus := ErrorStatus\<rparr>
      else s)"

definition onclose :: "nat \<Rightarrow> client \<Rightarrow> client" where
  "onclose k s =
     (if k < length (sockets s)
      then processQueue
             ((addLog RECV (s\<lparr>sockets := remove_nth k (sockets s)\<rparr>))\<lparr>wsBusy := False\<rparr>)
      else s)"

subsection \<open>flushChunk\<close>

text \<open>
  \<^verbatim>\<open>Math.sqrt(merged.reduce((s, v) => s + v * v, 0) / merged.length)\<close>, in doubles:
  each square, each sum, the quotient and the square root are rounded (the square root
  of the engines is the correctly rounded one of IEEE 754). For an empty \<open>merged\<close> the
  quotient is \<open>0 / 0\<close>, NaN, and every comparison with NaN is false.
\<close>

definition sum_squares :: "sample list \<Rightarrow> real" where
  "sum_squares merged = foldl (\<lambda>s v. fl (s + fl (v * v))) 0 merged"

definition rms :: "sample list \<Rightarrow> real option" where
  "rms merged =
     (if merged = [] then None
      else Some (fl (sqrt (fl (sum_squares merged / real (length merged))))))"

definition below_silence :: "real option \<Rightarrow> bool" where
  "below_silence r = (case r of None \<Rightarrow> False | Some x \<Rightarrow> x < SILENCE)"

text \<open>
  The handler returns the state it leaves and the exception it throws, if any: the
  writes made before a throw stay.
\<close>

definition flushChunk :: "client \<Rightarrow> client \<times> js_error option" where
  "flushChunk s =
     (if pcmBuf s = [] then (addLog DROP s, None)
      else
        let merged = concat (pcmBuf s);
            s1 = s\<lparr>pcmBuf := []\<rparr>
        in if below_silence (rms merged) then (addLog DROP s1, None)
           else
             (case resample merged (nativeSR s1) of
                Inl e \<Rightarrow> (s1, Some e)
              | Inr r \<Rightarrow>
                  (case toWav r TARGET_SR of
                     Inl e \<Rightarrow> (s1, Some e)
                   | Inr wav \<Rightarrow>
                       let s2 = addLog SEND (s1\<lparr>statSent := statSent s1 + 1\<rparr>);
                           s3 = s2\<lparr>wsQueue := wsQueue s2 @ [wav],
                                   pushed := pushed s2 @ [wav]\<rparr>
                       in (processQueue s3, None))))"

subsection \<open>Capture, start and stop\<close>

text \<open>\<^verbatim>\<open>proc.onaudioprocess\<close>.\<close>

definition onaudioprocess :: "sample list \<Rightarrow> client \<Rightarrow> client" where
  "onaudioprocess frame s =
     (if running s then s\<lparr>pcmBuf := pcmBuf s @ [frame]\<rparr> else s)"

text \<open>
  The state that a successful \<^verbatim>\<open>startRecording\<close> leaves on a freshly mounted page,
  the audio context running at \<open>sr\<close> Hz.
\<close>

definition started :: "real \<Rightarrow> client" where
  "started sr =
     \<lparr>isRecording = True, transcript = [], wsStatus = Ready, error_shown = False,
      logs = [RECV, RECV], statSent = 0, statDone = 0,
      streamRef = True, actxRef = True, procRef = True,
      pcmBuf = [], nativeSR = sr, wsQueue = [], wsBusy = False,
      chunkTmr = True, running = True,
      encoding = [], sockets = [], pushed = [], dispatched = []\<rparr>"

text \<open>
  The page as it is mounted: the initial values of the state and of the refs, nothing
  in progress.
\<close>

definition mounted :: client where
  "mounted =
     \<lparr>isRecording = False, transcript = [], wsStatus = Disconnected, error_shown = False,
      logs = [], statSent = 0, statDone = 0,
      streamRef = False, actxRef = False, procRef = False,
      pcmBuf = [], nativeSR = TARGET_SR, wsQueue = [], wsBusy = False,
      chunkTmr = False, running = False,
      encoding = [], sockets = [], pushed = [], dispatched = []\<rparr>"

text \<open>
  \<^verbatim>\<open>startRecording\<close> is an async function. Its body up to the \<^verbatim>\<open>await\<close> of
  \<^verbatim>\<open>getUserMedia\<close> runs in the click handler (\<open>startRecording_begin\<close>). The rest runs
  when the promise settles (\<open>startRecording_resume\<close>): with the sample rate of the audio
  context made for the stream, or with \<open>None\<close> when the promise is rejected and the
  \<^verbatim>\<open>catch\<close> clause runs. The assignments to \<^verbatim>\<open>wsQueueRef\<close> and \<^verbatim>\<open>wsBusyRef\<close>
  touch the two refs only: the conversions and the sockets in progress, which belong to
  the environment, and the history variables stay as they are. \<open>startRecording\<close> is a
  start whose promise settles before any other event. The button that calls it shows
  when \<open>isRecording\<close> is false and is enabled unless \<open>wsStatus\<close> is \<open>Connecting\<close>.
\<close>

definition startRecording_begin :: "client \<Rightarrow> client" where
  "startRecording_begin s =
     addLog RECV (s\<lparr>error_shown := False, wsStatus := Connecting,
                    statSent := 0, statDone := 0\<rparr>)"

definition startRecording_resume :: "real option \<Rightarrow> client \<Rightarrow> client" where
  "startRecording_resume media s =
     (case media of
        None \<Rightarrow> (addLog ERR s)\<lparr>error_shown := True, wsStatus := ErrorStatus\<rparr>
      | Some sr \<Rightarrow>
          (addLog RECV (s\<lparr>streamRef := True, actxRef := True, nativeSR := sr\<rparr>))
            \<lparr>procRef := True, running := True, pcmBuf := [], wsQueue := [],
             wsBusy := False, chunkTmr := True, wsStatus := Ready, isRecording := True\<rparr>)"

definition startRecording :: "real option \<Rightarrow> client \<Rightarrow> client" where
  "startRecording media s = startRecording_resume media (startRecording_begin s)"

definition stopRecording :: "client \<Rightarrow> client \<times> js_error option" where
  "stopRecording s =
     (let s1 = s\<lparr>running := False, isRecording := False, wsStatus := Disconnected,
                 chunkTmr := False\<rparr>
      in case flushChunk s1 of
           (s2, Some e) \<Rightarrow> (s2, Some e)
         | (s2, None) \<Rightarrow>
             ((addLog RECV s2)\<lparr>procRef := False, streamRef := False, actxRef := False\<rparr>,
              None))"

text \<open>The buttons \<^verbatim>\<open>Effacer\<close> and \<^verbatim>\<open>Sauvegarder\<close>, as far as the transcript goes.\<close>

definition clearTranscript :: "client \<Rightarrow> client" where
  "clearTranscript s = s\<lparr>transcript := []\<rparr>"

definition saveRecording :: "client \<Rightarrow> client" where
  "saveRecording s = (if js_trim (transcript s) = [] then s else s\<lparr>transcript := []\<rparr>)"

subsection \<open>Events\<close>

text \<open>
  Everything that can happen to the page during and after one recording, in any order
  and at any pace: an audio frame, a tick of the chunk timer, the end of a base64
  conversion, a message, an error or a close on an open socket, and the buttons. A tick
  arrives only while the timer is active, the stop button exists only while recording,
  and the two transcript buttons are disabled as the source disables them.
\<close>

datatype event =
    Frame "sample list"
  | Tick
  | Encoded nat bool
  | Message nat server_msg
  | SockError nat
  | SockClose nat
  | Stop
  | Clear
  | Save

fun step :: "client \<Rightarrow> event \<Rightarrow> client" where
  "step s (Frame f) = onaudioprocess f s"
| "step s Tick = (if chunkTmr s then fst (flushChunk s) else s)"
| "step s (Encoded k ok) = onEncoded k ok s"
| "step s (Message k m) = onmessage k m s"
| "step s (SockError k) = onerror k s"
| "step s (SockClose k) = onclose k s"
| "step s Stop = (if isRecording s then fst (stopRecording s) else s)"
| "step s Clear = (if transcript s = [] then s else clearTranscript s)"
| "step s Save =
     (if js_trim (transcript s) = [] \<or> isRecording s then s else saveRecording s)"

definition run :: "client \<Rightarrow> event list \<Rightarrow> client" where
  "run s evs = foldl step s evs"

section \<open>The session configuration\<close>

datatype Engine = Whisper | Vosk | Gladia

text \<open>
  The table \<^verbatim>\<open>NB_MIN\<close> of the least speaker count per engine. The source declares
  it and reads it nowhere.
\<close>

definition NB_MIN :: "Engine \<Rightarrow> nat" where
  "NB_MIN e = (case e of Vosk \<Rightarrow> 1 | Whisper \<Rightarrow> 1 | Gladia \<Rightarrow> 0)"

record config =
  engine :: Engine
  nbLocuteurs :: nat

text \<open>The initial values of the two \<^verbatim>\<open>useState\<close> hooks.\<close>

definition init_config :: config where
  "init_config = \<lparr>engine = Whisper, nbLocuteurs = 2\<rparr>"

text \<open>
  The effect that runs when \<^verbatim>\<open>engine\<close> has changed:
  \<^verbatim>\<open>if (engine === "gladia" && nbLocuteurs < 1) setNbLocuteurs(1)\<close>.
\<close>

definition engine_effect :: "config \<Rightarrow> config" where
  "engine_effect c =
     (if engine c = Gladia \<and> nbLocuteurs c < 1 then c\<lparr>nbLocuteurs := 1\<rparr> else c)"

text \<open>
  The controls of the settings panel: the three engine buttons, and the two buttons for
  the number of speakers, the first of which is disabled when the engine is Gladia.
\<close>

datatype ui_event = SetEngine Engine | ClickSeul | ClickAvecPatient

fun ui_step :: "config \<Rightarrow> ui_event \<Rightarrow> config" where
  "ui_step c (SetEngine e) = engine_effect (c\<lparr>engine := e\<rparr>)"
| "ui_step c ClickSeul = (if engine c = Gladia then c else c\<lparr>nbLocuteurs := 1\<rparr>)"
| "ui_step c ClickAvecPatient = c\<lparr>nbLocuteurs := 2\<rparr>"

definition ui_run :: "config \<Rightarrow> ui_event list \<Rightarrow> config" where
  "ui_run c evs = foldl ui_step c evs"

text \<open>The message sent for one chunk; \<open>b64\<close> is the encoded container.\<close>

record payload =
  audio :: string
  p_engine :: Engine
  nb_locuteurs :: nat
  modele_vosk :: "string option"
  config_whisper :: "string option"
  methode_bruit :: "string option"
  type_environnement :: "string option"

definition buildPayload :: "config \<Rightarrow> string \<Rightarrow> payload" where
  "buildPayload c b64 =
     (let eng = engine c;
          base = \<lparr>audio = b64, p_engine = eng, nb_locuteurs = nbLocuteurs c,
                  modele_vosk = None, config_whisper = None, methode_bruit = None,
                  type_environnement = None\<rparr>
      in if eng = Vosk
         then base\<lparr>modele_vosk := Some ''grand'', methode_bruit := Some ''false'',
                   type_environnement := Some ''2''\<rparr>
         else if eng = Whisper
         then base\<lparr>config_whisper := Some ''cpu_rapide'', methode_bruit := Some ''false'',
                   type_environnement := Some ''2''\<rparr>
         else base)"

text \<open>A speaker count respects the floor of its engine.\<close>

definition respects_floor :: "Engine \<Rightarrow> nat \<Rightarrow> bool" where
  "respects_floor e n = (NB_MIN e \<le> n)"

section \<open>Predicates of the statements\<close>

text \<open>
  The invariant of the transport. What holds of the queue, the busy flag and the sends in progress between two handler
  calls: at most one send has begun and not completed; the busy flag is set exactly
  when there is one; the chunks pushed so far are those dispatched so far followed by
  those still queued; the send in progress, if any, is the chunk dispatched last; and a
  chunk waits in the queue only while a send is in progress. \<open>transport_pre\<close> is the part
  that holds on entry to \<^verbatim>\<open>processQueue\<close>.
\<close>

definition transport_pre :: "client \<Rightarrow> bool" where
  "transport_pre s =
     (length (outstanding s) \<le> 1 \<and> wsBusy s = (outstanding s \<noteq> [])
      \<and> pushed s = dispatched s @ wsQueue s
      \<and> (outstanding s = [] \<or>
           (dispatched s \<noteq> [] \<and> outstanding s = [last (dispatched s)])))"

definition transport_inv :: "client \<Rightarrow> bool" where
  "transport_inv s = (transport_pre s \<and> (wsQueue s = [] \<or> wsBusy s))"

text \<open>
  What the completion of a send in state \<open>s\<close> leaves in \<open>s'\<close>: nothing is in
  progress but the head of the queue, if there was one, which has left the queue and is
  the chunk dispatched last; the busy flag, cleared, is set again exactly in that case;
  and nothing was pushed.
\<close>

definition next_dispatched :: "client \<Rightarrow> client \<Rightarrow> bool" where
  "next_dispatched s s' =
     (wsQueue s' = tl (wsQueue s) \<and> outstanding s' = take 1 (wsQueue s)
      \<and> dispatched s' = dispatched s @ take 1 (wsQueue s)
      \<and> wsBusy s' = (wsQueue s \<noteq> []) \<and> pushed s' = pushed s)"

text \<open>Nothing was added to the transport between \<open>s\<close> and \<open>s'\<close>.\<close>

definition nothing_enqueued :: "client \<Rightarrow> client \<Rightarrow> bool" where
  "nothing_enqueued s s' =
     (pushed s' = pushed s \<and> wsQueue s' = wsQueue s \<and> dispatched s' = dispatched s
      \<and> outstanding s' = outstanding s \<and> wsBusy s' = wsBusy s \<and> statSent s' = statSent s)"

text \<open>The capture side is the same in \<open>s\<close> and \<open>s'\<close>: the recording goes on as it was.\<close>

definition capture_unchanged :: "client \<Rightarrow> client \<Rightarrow> bool" where
  "capture_unchanged s s' =
     (running s' = running s \<and> isRecording s' = isRecording s \<and> chunkTmr s' = chunkTmr s
      \<and> pcmBuf s' = pcmBuf s \<and> nativeSR s' = nativeSR s \<and> procRef s' = procRef s
      \<and> streamRef s' = streamRef s \<and> actxRef s' = actxRef s)"

text \<open>
  Output sample \<open>i\<close> of the resampling as the specification words it, on the reals and
  without rounding: \<open>src[floor(pos)] + frac * (src[floor(pos) + 1] - src[floor(pos)])\<close>
  at \<open>pos = i * ratio\<close>. It has a value only where both samples exist.
\<close>

definition spec_sample :: "sample list \<Rightarrow> real \<Rightarrow> nat \<Rightarrow> real" where
  "spec_sample src ratio i =
     (let pos = real i * ratio; k = nat \<lfloor>pos\<rfloor>; frac = pos - real k
      in src ! k + frac * (src ! (k + 1) - src ! k))"

text \<open>
  The root mean square of a buffer as the mathematics has it, without rounding, to
  compare with the one \<^verbatim>\<open>flushChunk\<close> computes; and the largest relative error of one
  rounding to a double.
\<close>

definition exact_rms :: "sample list \<Rightarrow> real" where
  "exact_rms merged = sqrt ((\<Sum>v\<leftarrow>merged. v * v) / real (length merged))"

definition unit_roundoff :: real where
  "unit_roundoff = 1 / 2 ^ 53"

text \<open>A transcript that is empty or ends in a code unit that is not white space.\<close>

definition tidy :: "jsstring \<Rightarrow> bool" where
  "tidy t = (t = [] \<or> \<not> is_ws (last t))"

text \<open>The code units of an ASCII literal, for writing examples.\<close>

definition js :: "string \<Rightarrow> jsstring" where
  "js cs = map (\<lambda>c. word_of_nat (of_char c)) cs"

subsection \<open>Example inputs\<close>

text \<open>
  A recording at the target rate in which two audible frames of one sample each are
  captured and flushed one after the other, and the container of such a frame.
\<close>

definition ex_chunk :: "sample \<Rightarrow> byte list" where
  "ex_chunk v = wav_header 1 TARGET_SR @ wav_data [v]"

definition two_chunks :: "event list" where
  "two_chunks = [Frame [1 / 2], Tick, Frame [1 / 4], Tick]"

text \<open>
  Two recordings stopped while the transport is at work. In the first the stop flushes
  one audible frame, whose send has begun. In the second a frame was flushed by a tick
  and the stop flushes another, which waits in the queue for the first to complete.
\<close>

definition stopped_in_flight :: client where
  "stopped_in_flight = run (started TARGET_SR) [Frame [1 / 2], Stop]"

definition stopped_queued :: client where
  "stopped_queued = run (started TARGET_SR) [Frame [1 / 2], Tick, Frame [1 / 4], Stop]"

section \<open>Properties of the rounding\<close>

text \<open>
  A number with a significand that fits is its own rounding, the rounding of a double
  commutes with a halving and with the sign, and the relative error of \<open>fl\<close> is at most
  \<open>1 / 2 ^ 53\<close>.
\<close>

lemma round_even_int: "round_even (of_int z) = z"
  by (simp add: round_even_def)

lemma round_even_err: "\<bar>of_int (round_even y) - y\<bar> \<le> 1 / 2"
  unfolding round_even_def Let_def by (auto; linarith)

lemma round_even_floor: "\<lfloor>y\<rfloor> \<le> round_even y"
  unfolding round_even_def Let_def by auto

lemma rnd_zero: "rnd p emin 0 = 0"
  by (simp add: rnd_def)

lemma rnd_nonneg:
  assumes "0 \<le> x"
  shows "0 \<le> rnd p emin x"
proof (cases "x = 0")
  case True
  then show ?thesis by (simp add: rnd_def)
next
  case False
  let ?u = "2 powr of_int (binade emin x - (int p - 1)) :: real"
  have u: "0 < ?u" by simp
  then have "0 \<le> x / ?u" using assms by simp
  then have "0 \<le> \<lfloor>x / ?u\<rfloor>" by simp
  then have "0 \<le> round_even (x / ?u)" using round_even_floor [of "x / ?u"] by linarith
  then show ?thesis using False u by (simp add: rnd_def Let_def)
qed

lemma powr_floor_log_le:
  assumes "x \<noteq> 0"
  shows "2 powr of_int \<lfloor>log 2 \<bar>x\<bar>\<rfloor> \<le> \<bar>x\<bar>"
proof -
  have "of_int \<lfloor>log 2 \<bar>x\<bar>\<rfloor> \<le> log 2 \<bar>x\<bar>" by simp
  then have "2 powr of_int \<lfloor>log 2 \<bar>x\<bar>\<rfloor> \<le> 2 powr log 2 \<bar>x\<bar>"
    by (simp only: powr_le_cancel_iff) 
  also have "\<dots> = \<bar>x\<bar>" using assms by simp
  finally show ?thesis .
qed

lemma fl_pos:
  assumes "0 < x"
  shows "0 < fl x"
proof -
  let ?e = "\<lfloor>log 2 \<bar>x\<bar>\<rfloor>"
  let ?u = "2 powr of_int (?e - 52) :: real"
  have u: "0 < ?u" by simp
  have "2 powr of_int ?e \<le> x" using powr_floor_log_le [of x] assms by simp
  then have "2 powr of_int ?e / ?u \<le> x / ?u" using u by (simp add: divide_right_mono)
  moreover have "2 powr of_int ?e / ?u = 2 powr 52"
    by (simp add: powr_diff [symmetric])
  moreover have "(1::real) \<le> 2 powr 52" using powr_mono [of 0 52 "2::real"] by simp
  ultimately have "1 \<le> x / ?u" by linarith
  then have "1 \<le> \<lfloor>x / ?u\<rfloor>" by simp
  then have "1 \<le> round_even (x / ?u)" using round_even_floor [of "x / ?u"] by linarith
  then have "0 < ?u * of_int (round_even (x / ?u))" using u by simp
  then show ?thesis using assms by (simp add: fl_def rnd_def binade_def Let_def)
qed

lemma rnd_exact:
  assumes m: "\<bar>m\<bar> < 2 ^ p" and j: "case emin of None \<Rightarrow> True | Some l \<Rightarrow> l - (int p - 1) \<le> j"
  shows "rnd p emin (of_int m * 2 powr of_int j) = of_int m * 2 powr of_int j"
proof (cases "m = 0")
  case True
  then show ?thesis by (simp add: rnd_def)
next
  case False
  let ?x = "of_int m * 2 powr of_int j :: real"
  have x0: "?x \<noteq> 0" using False by simp
  have ax: "\<bar>?x\<bar> = of_int \<bar>m\<bar> * 2 powr of_int j" by (simp add: abs_mult)
  have "of_int \<bar>m\<bar> < (2::real) ^ p" using m by (metis of_int_less_numeral_power_cancel_iff)
  then have "\<bar>?x\<bar> < 2 ^ p * 2 powr of_int j" unfolding ax by simp
  also have "\<dots> = 2 powr (of_int (int p + j))" by (simp add: powr_add powr_realpow)
  finally have lt: "\<bar>?x\<bar> < 2 powr of_int (int p + j)" .
  have "log 2 \<bar>?x\<bar> < of_int (int p + j)"
    using lt x0 by (simp add: log_less_iff del: of_int_add)
  then have fl: "\<lfloor>log 2 \<bar>?x\<bar>\<rfloor> < int p + j" by linarith
  have e: "binade emin ?x - (int p - 1) \<le> j"
    using fl j by (cases emin) (auto simp: binade_def)
  define k where "k = nat (j - (binade emin ?x - (int p - 1)))"
  have kk: "int k = j - (binade emin ?x - (int p - 1))" using e by (simp add: k_def)
  let ?u = "2 powr of_int (binade emin ?x - (int p - 1)) :: real"
  have "2 powr of_int j / ?u = 2 powr of_int (int k)"
    unfolding kk by (simp add: powr_diff [symmetric])
  also have "\<dots> = 2 ^ k" by (simp add: powr_realpow)
  finally have q: "2 powr of_int j / ?u = 2 ^ k" .
  have "?x / ?u = of_int m * (2 powr of_int j / ?u)" by simp
  also have "\<dots> = of_int (m * 2 ^ k)" unfolding q by simp
  finally have xi: "?x / ?u = of_int (m * 2 ^ k)" .
  have "?u * of_int (round_even (?x / ?u)) = ?u * (?x / ?u)"
    unfolding xi round_even_int ..
  also have "\<dots> = ?x" by simp
  finally show ?thesis using x0 by (simp add: rnd_def Let_def)
qed

lemma fl_dyadic: "\<bar>m\<bar> < 2 ^ 53 \<Longrightarrow> fl (of_int m / 2 ^ k) = of_int m / 2 ^ k"
proof -
  assume m: "\<bar>m\<bar> < 2 ^ 53"
  have "of_int m / 2 ^ k = of_int m * (2::real) powr of_int (- int k)"
    by (simp add: powr_minus powr_realpow divide_inverse)
  then show ?thesis using rnd_exact [where m = m and p = 53 and emin = None and j = "- int k"] m
    by (simp add: fl_def)
qed

lemma fl_int: "\<bar>m\<bar> < 2 ^ 53 \<Longrightarrow> fl (of_int m) = of_int m"
  using fl_dyadic [of m 0] by simp

lemma fr32_dyadic:
  "\<bar>m\<bar> < 2 ^ 24 \<Longrightarrow> k \<le> 149 \<Longrightarrow> fr32 (of_int m / 2 ^ k) = of_int m / 2 ^ k"
proof -
  assume m: "\<bar>m\<bar> < 2 ^ 24" and k: "k \<le> 149"
  have "of_int m / 2 ^ k = of_int m * (2::real) powr of_int (- int k)"
    by (simp add: powr_minus powr_realpow divide_inverse)
  then show ?thesis using rnd_exact [where m = m and p = 24 and emin = "Some (- 126)" and j = "- int k"] m k
    by (simp add: fr32_def)
qed

lemma fl_err: "\<bar>fl x - x\<bar> \<le> \<bar>x\<bar> / 2 ^ 53"
proof (cases "x = 0")
  case True
  then show ?thesis by (simp add: fl_def rnd_def)
next
  case False
  let ?e = "\<lfloor>log 2 \<bar>x\<bar>\<rfloor>"
  let ?u = "2 powr of_int (?e - 52) :: real"
  have u: "0 < ?u" by simp
  have "fl x - x = ?u * (of_int (round_even (x / ?u)) - x / ?u)"
    using False by (simp add: fl_def rnd_def binade_def Let_def algebra_simps)
  then have "\<bar>fl x - x\<bar> = ?u * \<bar>of_int (round_even (x / ?u)) - x / ?u\<bar>"
    using u by (simp add: abs_mult)
  also have "\<dots> \<le> ?u * (1 / 2)"
    using round_even_err [of "x / ?u"] u by (intro mult_left_mono) simp_all
  also have "?u = 2 powr of_int ?e / 2 ^ 52"
    by (simp add: powr_diff powr_realpow [symmetric])
  also have "2 powr of_int ?e / 2 ^ 52 * (1 / 2) \<le> \<bar>x\<bar> / 2 ^ 52 * (1 / 2)"
    using powr_floor_log_le [OF False] by (simp add: divide_right_mono)
  finally show ?thesis by simp
qed

lemma round_even_up:
  assumes "of_int f + 1 / 2 < y" and "y < of_int f + 1"
  shows "round_even y = f + 1"
proof -
  have "\<lfloor>y\<rfloor> = f" using assms by linarith
  then show ?thesis using assms by (simp add: round_even_def Let_def)
qed

lemma fl_silence: "fl (4 / 1000) = 4611686018427388 / 2 ^ 60"
proof -
  have p8: "(2::real) powr of_int (- 8) = 1 / 256" and p7: "(2::real) powr of_int (- 8 + 1) = 1 / 128"
    by (simp_all add: powr_minus_divide)
  have "(2::real) powr of_int (- 8) \<le> 4 / 1000 \<and> 4 / 1000 < (2::real) powr of_int (- 8 + 1)"
    unfolding p8 p7 by simp
  then have "\<lfloor>log 2 (4 / 1000 :: real)\<rfloor> = - 8"
    by (subst floor_log_eq_powr_iff) simp_all
  then have e: "\<lfloor>log 2 \<bar>4 / 1000 :: real\<bar>\<rfloor> = - 8" by simp
  have "(2::real) powr real (60::nat) = 2 ^ 60" by (rule powr_realpow) simp
  then have u: "2 powr of_int (- 8 - (int 53 - 1)) = (1 / 2 ^ 60 :: real)"
    by (simp add: powr_minus_divide)
  have r: "round_even (4 / 1000 / (1 / 2 ^ 60)) = 4611686018427387 + 1"
    by (rule round_even_up) simp_all
  show ?thesis
    by (simp only: fl_def rnd_def binade_def option.case e u r Let_def) simp
qed

lemma round_even_near:
  assumes "of_int M - 1 / 2 < y" and "y < of_int M + 1 / 2"
  shows "round_even y = M"
proof (cases "of_int M \<le> y")
  case True
  then have "\<lfloor>y\<rfloor> = M" using assms by linarith
  then show ?thesis using assms by (simp add: round_even_def Let_def)
next
  case False
  then have "\<lfloor>y\<rfloor> = M - 1" using assms by linarith
  then show ?thesis using assms False by (simp add: round_even_def Let_def)
qed

lemma round_even_ceiling: "round_even y \<le> \<lceil>y\<rceil>"
  unfolding round_even_def Let_def by (auto; linarith)

lemma round_even_minus: "round_even (- y) = - round_even y"
proof (cases "y = of_int \<lfloor>y\<rfloor>")
  case True
  then obtain z where "y = of_int z" ..
  then have "round_even y = z" "round_even (- y) = - z"
    using round_even_int [of z] round_even_int [of "- z"] by simp_all
  then show ?thesis by simp
next
  case False
  then have f: "\<lfloor>- y\<rfloor> = - \<lfloor>y\<rfloor> - 1" by linarith
  have "(y - of_int \<lfloor>y\<rfloor> < 1 / 2) = (1 / 2 < - y - of_int (- \<lfloor>y\<rfloor> - 1))"
    "(1 / 2 < y - of_int \<lfloor>y\<rfloor>) = (- y - of_int (- \<lfloor>y\<rfloor> - 1) < 1 / 2)"
    by auto
  then show ?thesis unfolding round_even_def Let_def f by auto
qed

lemma binade_half: "x \<noteq> 0 \<Longrightarrow> binade None (x / 2) = binade None x - 1"
proof -
  assume x: "x \<noteq> 0"
  have "log 2 \<bar>x / 2\<bar> = log 2 \<bar>x\<bar> - 1" using x by (simp add: log_divide)
  then show ?thesis by (simp add: binade_def)
qed

lemma fl_half: "fl (x / 2) = fl x / 2"
proof (cases "x = 0")
  case True
  then show ?thesis by (simp add: fl_def rnd_def)
next
  case False
  let ?u = "2 powr of_int (binade None x - (int 53 - 1)) :: real"
  have x2: "(x / 2 = 0) = False" using False by simp
  have x0: "(x = 0) = False" using False by simp
  have u2: "2 powr of_int (binade None (x / 2) - (int 53 - 1)) = ?u / 2"
    unfolding binade_half [OF False]
    by (simp add: powr_diff algebra_simps)
  have q: "x / 2 / (?u / 2) = x / ?u" by simp
  have "fl (x / 2) = ?u / 2 * of_int (round_even (x / ?u))"
    by (simp only: fl_def rnd_def Let_def x2 if_False u2 q)
  moreover have "fl x = ?u * of_int (round_even (x / ?u))"
    by (simp only: fl_def rnd_def Let_def x0 if_False)
  ultimately show ?thesis by simp
qed

lemma fl_minus: "fl (- x) = - fl x"
  by (simp add: fl_def rnd_def binade_def Let_def round_even_minus)

lemma fl_zero: "fl 0 = 0"
  by (simp add: fl_def rnd_def)

lemma fl_one: "fl 1 = 1"
  using fl_int [of 1] by simp

lemma fl_numeral:
  assumes "(numeral n :: int) < 2 ^ 53"
  shows "fl (numeral n) = numeral n"
proof -
  have "\<bar>numeral n :: int\<bar> < 2 ^ 53" using assms by (simp only: abs_numeral)
  from fl_int [OF this] show ?thesis by (simp only: of_int_numeral)
qed

lemma fl_over_even: "fl (x / numeral (Num.Bit0 n)) = fl (x / numeral n) / 2"
proof -
  have "(numeral (Num.Bit0 n) :: real) = numeral n + numeral n"
    by (rule numeral_Bit0)
  also have "\<dots> = numeral n * 2" by (rule mult_2_right [symmetric])
  finally have "(numeral (Num.Bit0 n) :: real) = numeral n * 2" .
  then have "x / numeral (Num.Bit0 n) = x / numeral n / 2"
    by (simp only: divide_divide_eq_left)
  then show ?thesis by (simp only: fl_half)
qed

lemmas fl_eval = fl_zero fl_one fl_numeral fl_minus fl_over_even

lemma fr32_zero: "fr32 0 = 0"
  by (simp add: fr32_def rnd_def)

lemma fr32_int: "\<bar>m\<bar> < 2 ^ 24 \<Longrightarrow> fr32 (of_int m) = of_int m"
  using fr32_dyadic [of m 0] by simp

lemma fr32_one: "fr32 1 = 1"
  using fr32_int [of 1] by simp

lemma fr32_numeral:
  assumes "(numeral n :: int) < 2 ^ 24"
  shows "fr32 (numeral n) = numeral n"
proof -
  have "\<bar>numeral n :: int\<bar> < 2 ^ 24" using assms by (simp only: abs_numeral)
  from fr32_int [OF this] show ?thesis by (simp only: of_int_numeral)
qed

lemma fr32_neg_numeral:
  assumes "(numeral n :: int) < 2 ^ 24"
  shows "fr32 (- numeral n) = - numeral n"
proof -
  have "\<bar>- numeral n :: int\<bar> < 2 ^ 24" using assms by (simp only: abs_minus_cancel abs_numeral)
  from fr32_int [OF this] show ?thesis by (simp only: of_int_numeral of_int_minus)
qed

lemmas fr32_eval = fr32_zero fr32_one fr32_numeral fr32_neg_numeral

lemma rnd_eval:
  assumes lo: "2 powr of_int e \<le> \<bar>x\<bar>" and hi: "\<bar>x\<bar> < 2 powr of_int (e + 1)"
    and cl: "case emin of None \<Rightarrow> True | Some l \<Rightarrow> l \<le> e"
    and r: "round_even (x / 2 powr of_int (e - (int p - 1))) = M"
  shows "rnd p emin x = of_int M * 2 powr of_int (e - (int p - 1))"
proof -
  have x0: "x \<noteq> 0" using lo by (auto simp: not_le [symmetric])
  have "\<lfloor>log 2 \<bar>x\<bar>\<rfloor> = e"
    using lo hi x0 by (subst floor_log_eq_powr_iff) simp_all
  then have "binade emin x = e" using cl by (cases emin) (simp_all add: binade_def)
  then show ?thesis using x0 r by (simp add: rnd_def Let_def)
qed

lemma fl_lower:
  assumes "0 \<le> x"
  shows "(1 - 1 / 2 ^ 53) * x \<le> fl x"
proof -
  have "\<bar>fl x - x\<bar> \<le> x / 2 ^ 53" using fl_err [of x] assms by simp
  then have "x - x / 2 ^ 53 \<le> fl x" by linarith
  then show ?thesis by (simp add: algebra_simps)
qed

lemma fl_upper:
  assumes "0 \<le> x"
  shows "fl x \<le> (1 + 1 / 2 ^ 53) * x"
proof -
  have "\<bar>fl x - x\<bar> \<le> x / 2 ^ 53" using fl_err [of x] assms by simp
  then have "fl x \<le> x + x / 2 ^ 53" by linarith
  then show ?thesis by (simp add: algebra_simps)
qed

lemma fl_nonneg: "0 \<le> x \<Longrightarrow> 0 \<le> fl x"
  unfolding fl_def by (rule rnd_nonneg)

lemma fl_le_one:
  assumes "0 \<le> y" and "y < 1"
  shows "fl y \<le> 1"
proof (cases "y = 0")
  case True
  then show ?thesis by (simp add: fl_zero)
next
  case False
  let ?e = "\<lfloor>log 2 \<bar>y\<bar>\<rfloor>"
  let ?u = "2 powr of_int (?e - 52) :: real"
  have u: "0 < ?u" by simp
  have y: "0 < y" using assms False by simp
  then have "log 2 y < 0" using assms by simp
  then have "\<lfloor>log 2 y\<rfloor> < 0" by (simp add: floor_less_iff)
  moreover have "\<bar>y\<bar> = y" using y by simp
  ultimately have e: "?e \<le> - 1" by (simp only:)
  have "y < 2 powr (of_int ?e + 1)"
    using y real_of_int_floor_add_one_gt [of "log 2 y"] by (simp add: less_powr_iff)
  then have "y / ?u < 2 powr (of_int ?e + 1) / ?u" using u by (simp add: divide_strict_right_mono)
  also have "2 powr (of_int ?e + 1) / ?u = 2 powr 53" by (simp add: powr_diff [symmetric])
  also have "(2::real) powr 53 = 2 ^ 53" using powr_realpow [of "2::real" 53] by simp
  finally have "y / ?u < of_int (2 ^ 53)" by simp
  then have "\<lceil>y / ?u\<rceil> \<le> 2 ^ 53" by (simp only: ceiling_le_iff)
  then have "round_even (y / ?u) \<le> 2 ^ 53" using round_even_ceiling [of "y / ?u"] by linarith
  then have "of_int (round_even (y / ?u)) \<le> (2 ^ 53 :: real)"
    by (metis of_int_le_numeral_power_cancel_iff)
  then have "?u * of_int (round_even (y / ?u)) \<le> ?u * 2 ^ 53" using u by simp
  also have "?u * 2 ^ 53 = 2 powr of_int (?e + 1)"
  proof -
    have "(2::real) ^ 53 = 2 powr 53" using powr_realpow [of "2::real" 53] by simp
    then have "?u * 2 ^ 53 = ?u * 2 powr 53" by (simp only:)
    also have "\<dots> = 2 powr (of_int (?e - 52) + 53)" by (simp only: powr_add)
    also have "of_int (?e - 52) + 53 = (of_int (?e + 1) :: real)" by simp
    finally show ?thesis .
  qed
  also have "\<dots> \<le> 2 powr 0" using e by (intro powr_mono) simp_all
  finally show ?thesis using False by (simp add: fl_def rnd_def binade_def Let_def)
qed

lemma fl_repr:
  assumes "0 < x"
  shows "\<exists>M. fl x = of_int M * 2 powr of_int (\<lfloor>log 2 x\<rfloor> - 52) \<and> 0 \<le> M \<and> M \<le> 2 ^ 53"
proof -
  let ?e = "\<lfloor>log 2 x\<rfloor>"
  let ?u = "2 powr of_int (?e - 52) :: real"
  let ?M = "round_even (x / ?u)"
  have u: "0 < ?u" by simp
  have ax: "\<bar>x\<bar> = x" using assms by simp
  have "0 \<le> x / ?u" using assms u by simp
  then have "0 \<le> \<lfloor>x / ?u\<rfloor>" by simp
  then have m0: "0 \<le> ?M" using round_even_floor [of "x / ?u"] by linarith
  have "x < 2 powr (of_int ?e + 1)"
    using assms real_of_int_floor_add_one_gt [of "log 2 x"] by (simp add: less_powr_iff)
  then have "x / ?u < 2 powr (of_int ?e + 1) / ?u" using u by (simp add: divide_strict_right_mono)
  also have "2 powr (of_int ?e + 1) / ?u = 2 powr 53" by (simp add: powr_diff [symmetric])
  also have "(2::real) powr 53 = 2 ^ 53" using powr_realpow [of "2::real" 53] by simp
  finally have "x / ?u < of_int (2 ^ 53)" by simp
  then have "\<lceil>x / ?u\<rceil> \<le> 2 ^ 53" by (simp only: ceiling_le_iff)
  then have m1: "?M \<le> 2 ^ 53" using round_even_ceiling [of "x / ?u"] by linarith
  have "fl x = of_int ?M * ?u"
    using assms by (simp add: fl_def rnd_def binade_def Let_def)
  with m0 m1 show ?thesis by blast
qed

lemma fl_frac_exact:
  assumes "0 \<le> x"
  shows "fl (fl x - of_int \<lfloor>fl x\<rfloor>) = fl x - of_int \<lfloor>fl x\<rfloor>"
proof (cases "x = 0")
  case True
  then show ?thesis by (simp add: fl_zero)
next
  case False
  then have "0 < x" using assms by simp
  then obtain M where fx: "fl x = of_int M * 2 powr of_int (\<lfloor>log 2 x\<rfloor> - 52)"
    and m0: "0 \<le> M" and m1: "M \<le> 2 ^ 53" using fl_repr by blast
  define j where "j = \<lfloor>log 2 x\<rfloor> - 52"
  note fx = fx [folded j_def]
  show ?thesis
  proof (cases "0 \<le> j")
    case True
    then have "2 powr of_int j = (2::real) ^ nat j"
      using powr_realpow [of "2::real" "nat j"] by simp
    then have "fl x = of_int (M * 2 ^ nat j)" unfolding fx by simp
    then have "fl x - of_int \<lfloor>fl x\<rfloor> = 0" by (simp only: floor_of_int)
    then show ?thesis by (simp add: fl_zero)
  next
    case False
    define k where "k = nat (- j)"
    have jk: "j = - int k" using False by (simp add: k_def)
    have "2 powr of_int j = 1 / (2::real) ^ k"
      unfolding jk using powr_realpow [of "2::real" k] by (simp add: powr_minus_divide)
    then have p: "fl x = of_int M / of_int (2 ^ k)" unfolding fx by simp
    have "\<lfloor>fl x\<rfloor> = M div 2 ^ k" unfolding p by (rule floor_divide_of_int_eq)
    then have "fl x - of_int \<lfloor>fl x\<rfloor> = (of_int M - of_int (M div 2 ^ k * 2 ^ k)) / of_int (2 ^ k)"
      unfolding p by (simp add: field_simps)
    also have "of_int M - of_int (M div 2 ^ k * 2 ^ k) = (of_int (M mod 2 ^ k) :: real)"
      by (simp add: minus_div_mult_eq_mod [symmetric])
    finally have d: "fl x - of_int \<lfloor>fl x\<rfloor> = of_int (M mod 2 ^ k) / 2 ^ k" by simp
    have r0: "0 \<le> M mod 2 ^ k" by simp
    have r1: "M mod 2 ^ k \<le> M" using m0 by (simp add: zmod_le_nonneg_dividend)
    have r2: "M mod 2 ^ k < 2 ^ k" by simp
    show ?thesis
    proof (cases "M mod 2 ^ k < 2 ^ 53")
      case True
      then have "\<bar>M mod 2 ^ k\<bar> < 2 ^ 53" using r0 by simp
      then show ?thesis unfolding d by (rule fl_dyadic)
    next
      case False
      then have eq: "M mod 2 ^ k = 2 ^ 53" using r1 m1 by linarith
      have lt: "(2::int) ^ 53 < 2 ^ k" using r2 unfolding eq .
      have "53 < k" by (rule power_less_imp_less_exp [OF _ lt]) simp
      then have "k = 53 + (k - 53)" by simp
      then have "(2::real) ^ k = 2 ^ (53 + (k - 53))" by (simp only:)
      then have "(2::real) ^ k = 2 ^ 53 * 2 ^ (k - 53)" by (simp only: power_add)
      then have "of_int (M mod 2 ^ k) / (2::real) ^ k = of_int 1 / 2 ^ (k - 53)"
        unfolding eq by simp
      moreover have "fl (of_int 1 / 2 ^ (k - 53)) = of_int 1 / 2 ^ (k - 53)"
        by (rule fl_dyadic) simp
      ultimately show ?thesis unfolding d by (simp only:)
    qed
  qed
qed

section \<open>Properties of the sample conversion\<close>

lemma clamp_sample_range: "- 1 \<le> clamp_sample v \<and> clamp_sample v \<le> 1"
  by (simp add: clamp_sample_def)

lemma scale_sample_range: "- 32768 \<le> scale_sample v \<and> scale_sample v \<le> 32767"
proof -
  have r: "- 1 \<le> clamp_sample v" "clamp_sample v \<le> 1"
    using clamp_sample_range [of v] by simp_all
  show ?thesis
  proof (cases "clamp_sample v < 0")
    case True
    with r show ?thesis by (simp add: scale_sample_def Let_def)
  next
    case False
    with r show ?thesis by (simp add: scale_sample_def Let_def)
  qed
qed

lemma js_trunc_range:
  assumes "of_int a \<le> x" and "x \<le> of_int b" and "a \<le> 0" and "0 \<le> b"
  shows "a \<le> js_trunc x \<and> js_trunc x \<le> b"
proof (cases "x < 0")
  case True
  have "a \<le> \<lceil>x\<rceil>" using assms(1) by linarith
  moreover have "\<lceil>x\<rceil> \<le> 0" using True by linarith
  ultimately show ?thesis using True assms(4) unfolding js_trunc_def by (simp, linarith)
next
  case False
  have "\<lfloor>x\<rfloor> \<le> b" using assms(2) by linarith
  moreover have "0 \<le> \<lfloor>x\<rfloor>" using False by simp
  ultimately show ?thesis using False assms(3) unfolding js_trunc_def by (simp, linarith)
qed

lemma sample_int_range: "- 32768 \<le> sample_int v \<and> sample_int v \<le> 32767"
  unfolding sample_int_def
  using js_trunc_range [of "- 32768" "scale_sample v" 32767] scale_sample_range [of v]
  by simp

lemma sint_word16:
  "- 32768 \<le> k \<Longrightarrow> k \<le> 32767 \<Longrightarrow> sint (word_of_int k :: 16 word) = k"
  by (simp add: sint_sbintrunc' signed_take_bit_int_eq_self)

text \<open>
  Claim C10. For every input sample, the integer handed to \<^verbatim>\<open>setInt16\<close> lies in
  \<open>[-32768, 32767]\<close>, so the 16-bit word that is stored reads back as that very integer
  (the reduction modulo \<open>2 ^ 16\<close> never changes it). A sample of 1 or more gives 32767
  and a sample of -1 or less gives -32768; in between, a negative sample is scaled by
  32768 and a non-negative one by 32767, then truncated towards zero.
\<close>

theorem pcm16_saturates:
  "- 32768 \<le> sample_int v \<and> sample_int v \<le> 32767
   \<and> sint (pcm16 v) = sample_int v
   \<and> setInt16 buf off (scale_sample v) = store buf off (le16 (pcm16 v))
   \<and> (1 \<le> v \<longrightarrow> sample_int v = 32767)
   \<and> (v \<le> - 1 \<longrightarrow> sample_int v = - 32768)
   \<and> (- 1 \<le> v \<and> v < 0 \<longrightarrow> sample_int v = \<lceil>v * 32768\<rceil>)
   \<and> (0 \<le> v \<and> v \<le> 1 \<longrightarrow> sample_int v = \<lfloor>v * 32767\<rfloor>)"
proof -
  have r: "- 32768 \<le> sample_int v" "sample_int v \<le> 32767"
    using sample_int_range [of v] by simp_all
  have s: "sint (pcm16 v) = sample_int v"
    unfolding pcm16_def using r by (rule sint_word16)
  have w: "setInt16 buf off (scale_sample v) = store buf off (le16 (pcm16 v))"
    by (simp add: setInt16_def pcm16_def sample_int_def)
  have hi: "1 \<le> v \<longrightarrow> sample_int v = 32767"
    by (simp add: sample_int_def scale_sample_def clamp_sample_def js_trunc_def)
  have lo: "v \<le> - 1 \<longrightarrow> sample_int v = - 32768"
    by (simp add: sample_int_def scale_sample_def clamp_sample_def js_trunc_def)
  have neg: "- 1 \<le> v \<and> v < 0 \<longrightarrow> sample_int v = \<lceil>v * 32768\<rceil>"
    by (auto simp add: sample_int_def scale_sample_def clamp_sample_def js_trunc_def
        Let_def mult_less_0_iff)
  have pos: "0 \<le> v \<and> v \<le> 1 \<longrightarrow> sample_int v = \<lfloor>v * 32767\<rfloor>"
    by (auto simp add: sample_int_def scale_sample_def clamp_sample_def js_trunc_def
        Let_def mult_less_0_iff)
  from r s w hi lo neg pos show ?thesis by blast
qed

theorem pcm16_saturates_witness:
  "(1 :: real) \<le> 3 / 2 \<and> sample_int (3 / 2) = 32767 \<and> sint (pcm16 (3 / 2)) = 32767
   \<and> (- 2 :: real) \<le> - 1 \<and> sample_int (- 2) = - 32768 \<and> sint (pcm16 (- 2)) = - 32768
   \<and> (- 1 :: real) \<le> - 1 / 3 \<and> (- 1 / 3 :: real) < 0 \<and> sample_int (- 1 / 3) = - 10922
   \<and> (0 :: real) \<le> 1 / 2 \<and> (1 / 2 :: real) \<le> 1 \<and> sample_int (1 / 2) = 16383"
  using pcm16_saturates [of "3 / 2"] pcm16_saturates [of "- 2"]
    pcm16_saturates [of "- 1 / 3"] pcm16_saturates [of "1 / 2"]
  by simp

section \<open>Properties of resample\<close>

lemma js_round_half: "js_round (real n / 2) = int ((n + 1) div 2)"
  unfolding js_round_def by linarith

lemma length_quotient_two: "length_quotient n 2 = real n / 2"
proof (cases "real n < 2 ^ 53")
  case True
  then have "real_of_int (int n) < 2 ^ 53" by simp
  then have "int n < 2 ^ 53" by (simp only: of_int_less_numeral_power_cancel_iff)
  then have "\<bar>int n\<bar> < 2 ^ 53" by simp
  from fl_dyadic [OF this, of 1] have "fl (real n / 2) = real n / 2" by simp
  then show ?thesis using True by (simp add: length_quotient_def)
next
  case False
  then show ?thesis by (simp add: length_quotient_def)
qed

text \<open>
  Claim C5. A buffer whose native rate is the target rate (16000 Hz) is returned as it
  is. At twice the target rate the output has \<open>(n + 1) div 2\<close> samples for \<open>n\<close> input
  samples, which is within 1 of \<open>n / 2\<close>.
\<close>

theorem resample_identity_and_halving:
  "resample f32 TARGET_SR = Inr f32
   \<and> (\<exists>out. resample f32 (2 * TARGET_SR) = Inr out
          \<and> length out = (length f32 + 1) div 2
          \<and> \<bar>real (length out) - real (length f32) / 2\<bar> \<le> 1)"
proof -
  have a: "resample f32 TARGET_SR = Inr f32"
    by (simp add: resample_def)
  have b: "resample f32 (2 * TARGET_SR) =
      Inr (map (resample_at f32 2) [0..<(length f32 + 1) div 2])"
    by (simp add: resample_def TARGET_SR_def Let_def js_round_half length_quotient_two
        fl_numeral)
  have c: "\<bar>real ((length f32 + 1) div 2) - real (length f32) / 2\<bar> \<le> 1"
    by linarith
  from a b c show ?thesis by simp
qed

lemma length_quotient_nonneg: "0 < ratio \<Longrightarrow> 0 \<le> length_quotient n ratio"
  by (simp add: length_quotient_def fl_nonneg)

lemma resample_Inr:
  assumes "0 < srcSR" and "srcSR \<noteq> TARGET_SR"
  shows "resample f32 srcSR = Inr (map (resample_at f32 (fl (srcSR / TARGET_SR)))
           [0..<nat (js_round (length_quotient (length f32) (fl (srcSR / TARGET_SR))))])"
proof -
  have "0 < srcSR / TARGET_SR" using assms(1) by (simp add: TARGET_SR_def)
  then have r: "0 < fl (srcSR / TARGET_SR)" by (rule fl_pos)
  then have "0 \<le> length_quotient (length f32) (fl (srcSR / TARGET_SR))"
    by (rule length_quotient_nonneg)
  then have "0 \<le> js_round (length_quotient (length f32) (fl (srcSR / TARGET_SR)))"
    unfolding js_round_def by linarith
  then show ?thesis using assms r by (simp add: resample_def Let_def)
qed

lemma resample_at_formula:
  assumes "0 \<le> ratio"
  shows "let pos = fl (real i * ratio); idx = nat \<lfloor>pos\<rfloor>; frac = pos - real idx;
             a = (if idx < length f32 then f32 ! idx else 0);
             b = (if idx + 1 < length f32 then f32 ! (idx + 1) else 0)
         in 0 \<le> frac \<and> frac < 1
            \<and> resample_at f32 ratio i = fr32 (fl (a + fl (frac * fl (b - a))))"
proof -
  let ?pos = "fl (real i * ratio)"
  have x: "0 \<le> real i * ratio" using assms by simp
  then have p: "0 \<le> ?pos" by (rule fl_nonneg)
  then have f0: "0 \<le> \<lfloor>?pos\<rfloor>" by simp
  then have ri: "real (nat \<lfloor>?pos\<rfloor>) = of_int \<lfloor>?pos\<rfloor>" by simp
  have fr: "0 \<le> ?pos - of_int \<lfloor>?pos\<rfloor>" "?pos - of_int \<lfloor>?pos\<rfloor> < 1" by linarith+
  have ex: "fl (?pos - of_int \<lfloor>?pos\<rfloor>) = ?pos - of_int \<lfloor>?pos\<rfloor>"
    using x by (rule fl_frac_exact)
  have a: "rd0 f32 \<lfloor>?pos\<rfloor> =
      (if nat \<lfloor>?pos\<rfloor> < length f32 then f32 ! nat \<lfloor>?pos\<rfloor> else 0)"
  proof -
    have "(\<lfloor>?pos\<rfloor> < int (length f32)) = (nat \<lfloor>?pos\<rfloor> < length f32)"
      using f0 by linarith
    then show ?thesis unfolding rd0_def using f0 by (simp only: simp_thms)
  qed
  have b: "rd0 f32 (\<lfloor>?pos\<rfloor> + 1) =
      (if nat \<lfloor>?pos\<rfloor> + 1 < length f32 then f32 ! (nat \<lfloor>?pos\<rfloor> + 1) else 0)"
  proof -
    have "nat (\<lfloor>?pos\<rfloor> + 1) = nat \<lfloor>?pos\<rfloor> + 1" using f0 by linarith
    moreover have "(\<lfloor>?pos\<rfloor> + 1 < int (length f32)) = (nat \<lfloor>?pos\<rfloor> + 1 < length f32)"
      using f0 by linarith
    moreover have "0 \<le> \<lfloor>?pos\<rfloor> + 1" using f0 by linarith
    ultimately show ?thesis unfolding rd0_def by (simp only: simp_thms)
  qed
  have "resample_at f32 ratio i =
      fr32 (fl ((if nat \<lfloor>?pos\<rfloor> < length f32 then f32 ! nat \<lfloor>?pos\<rfloor> else 0) +
        fl ((?pos - of_int \<lfloor>?pos\<rfloor>) *
          fl ((if nat \<lfloor>?pos\<rfloor> + 1 < length f32 then f32 ! (nat \<lfloor>?pos\<rfloor> + 1) else 0)
              - (if nat \<lfloor>?pos\<rfloor> < length f32 then f32 ! nat \<lfloor>?pos\<rfloor> else 0)))))"
    unfolding resample_at_def Let_def a b ex ..
  then show ?thesis unfolding Let_def ri using fr by (simp only: simp_thms)
qed

text \<open>Evaluating the rounding on the numbers of the examples.\<close>

lemma resample_8000: "resample [4, 6] 8000 = Inr [4, 5, 6, 3]"
  by (simp add: resample_def TARGET_SR_def js_round_def length_quotient_def
      resample_at_def rd0_def Let_def upt_rec fl_eval fr32_eval)

lemma resample_24000: "resample [1, 3, 5] 24000 = Inr [1, 4]"
  by (simp add: resample_def TARGET_SR_def js_round_def length_quotient_def
      resample_at_def rd0_def Let_def upt_rec fl_eval fr32_eval)

lemma ratio_44100: "fl (44100 / TARGET_SR) = 6206523236469965 / 2 ^ 51"
proof -
  have p1: "(2::real) powr of_int 1 = 2" and p2: "(2::real) powr of_int (1 + 1) = 4"
    by simp_all
  have lo: "2 powr of_int 1 \<le> \<bar>44100 / 16000 :: real\<bar>"
    and hi: "\<bar>44100 / 16000 :: real\<bar> < 2 powr of_int (1 + 1)"
    unfolding p1 p2 by simp_all
  have "(2::real) powr real (51::nat) = 2 ^ 51" by (rule powr_realpow) simp
  then have u: "2 powr of_int (1 - (int 53 - 1)) = (1 / 2 ^ 51 :: real)"
    by (simp add: powr_minus_divide)
  have r: "round_even (44100 / 16000 / 2 powr of_int (1 - (int 53 - 1))) = 6206523236469965"
    unfolding u by (rule round_even_near) simp_all
  from rnd_eval [OF lo hi _ r, of None] show ?thesis
    unfolding u by (simp add: fl_def TARGET_SR_def)
qed

lemma fr32_44100: "fr32 (1702923609099469 / 2 ^ 51) = 6343885 / 2 ^ 23"
proof -
  have p1: "(2::real) powr of_int (- 1) = 1 / 2" and p2: "(2::real) powr of_int (- 1 + 1) = 1"
    by (simp_all add: powr_minus_divide)
  have lo: "2 powr of_int (- 1) \<le> \<bar>1702923609099469 / 2 ^ 51 :: real\<bar>"
    and hi: "\<bar>1702923609099469 / 2 ^ 51 :: real\<bar> < 2 powr of_int (- 1 + 1)"
    unfolding p1 p2 by simp_all
  have "(2::real) powr real (24::nat) = 2 ^ 24" by (rule powr_realpow) simp
  then have u: "2 powr of_int (- 1 - (int 24 - 1)) = (1 / 2 ^ 24 :: real)"
    by (simp add: powr_minus_divide)
  have r: "round_even (1702923609099469 / 2 ^ 51 / 2 powr of_int (- 1 - (int 24 - 1))) = 12687770"
    unfolding u by (rule round_even_near) simp_all
  from rnd_eval [OF lo hi _ r, of "Some (- 126)"] show ?thesis
    unfolding u by (simp add: fr32_def)
qed

lemma resample_44100:
  "resample [0, 1, 0, 1, 0, 1] 44100 = Inr [0, 6343885 / 8388608]"
proof -
  let ?R = "6206523236469965 / 2251799813685248 :: real"
  let ?F = "1702923609099469 / 2251799813685248 :: real"
  have ratio: "fl (44100 / TARGET_SR) = ?R" using ratio_44100 by simp
  have fR: "fl ?R = ?R" using fl_dyadic [of 6206523236469965 51] by simp
  have fF: "fl ?F = ?F" using fl_dyadic [of 1702923609099469 51] by simp
  have sF: "fr32 ?F = 6343885 / 8388608" using fr32_44100 by simp
  have y0: "(0::real) \<le> 6 / ?R" by simp
  have "(1 - 1 / 2 ^ 53) * (6 / ?R) \<le> fl (6 / ?R)" using y0 by (rule fl_lower)
  then have l1: "3 / 2 \<le> fl (6 / ?R)" by simp
  have "fl (6 / ?R) \<le> (1 + 1 / 2 ^ 53) * (6 / ?R)" using y0 by (rule fl_upper)
  then have l2: "fl (6 / ?R) < 5 / 2" by simp
  have n: "js_round (length_quotient (length [0, 1, 0, 1, 0, 1 :: real]) ?R) = 2"
    using l1 l2 unfolding js_round_def length_quotient_def by simp linarith
  have s0: "resample_at [0, 1, 0, 1, 0, 1] ?R 0 = 0"
    by (simp add: resample_at_def rd0_def Let_def fl_eval fr32_eval)
  have fl2: "\<lfloor>?R\<rfloor> = 2" by simp
  have s1: "resample_at [0, 1, 0, 1, 0, 1] ?R 1 = 6343885 / 8388608"
    by (simp add: resample_at_def rd0_def Let_def fR fl2 fF sF fl_eval)
  have "resample [0, 1, 0, 1, 0, 1] 44100 =
      Inr (map (resample_at [0, 1, 0, 1, 0, 1] ?R) [0..<2])"
    using resample_Inr [of 44100 "[0, 1, 0, 1, 0, 1]"] n unfolding ratio
    by (simp add: TARGET_SR_def)
  then show ?thesis using s0 s1 by (simp add: upt_rec)
qed

lemma spec_sample_44100:
  "spec_sample [0, 1, 0, 1, 0, 1] (44100 / TARGET_SR) 1 = 121 / 160"
  by (simp add: spec_sample_def TARGET_SR_def Let_def)

text \<open>
  Claim C6 does not hold as it is stated, for two reasons. The arithmetic is that of
  the doubles and the output array holds float32: at 44100 Hz the second output sample
  of the buffer 0, 1, 0, 1, 0, 1 is 6343885/8388608, where the formula of the claim
  gives 121/160. And the sample that follows the source position can lie past the end
  of the buffer, where the source reads 0: at 8000 Hz the last output sample of the
  buffer 4, 6 is 3, halfway between 6 and the 0 that stands for the missing sample, and
  below both source samples.
\<close>

theorem resample_not_plain_interpolation:
  "resample [0, 1, 0, 1, 0, 1] 44100 = Inr [0, 6343885 / 8388608]
   \<and> spec_sample [0, 1, 0, 1, 0, 1] (44100 / TARGET_SR) 1 = 121 / 160
   \<and> (6343885 / 8388608 :: real) \<noteq> 121 / 160
   \<and> resample [4, 6] 8000 = Inr [4, 5, 6, 3]
   \<and> \<lfloor>real 3 * (8000 / TARGET_SR)\<rfloor> + 1 = int (length [4, 6 :: real])
   \<and> (3 :: real) < 4"
proof -
  have "\<lfloor>real 3 * (8000 / TARGET_SR)\<rfloor> + 1 = int (length [4, 6 :: real])"
    by (simp add: TARGET_SR_def)
  then show ?thesis using resample_44100 spec_sample_44100 resample_8000 by simp
qed

text \<open>
  Claim C6, amended. For a positive native rate other than the target rate, with
  \<open>ratio\<close> the double nearest to \<open>srcSR / 16000\<close>, the output has \<open>round (n / ratio)\<close>
  samples, the quotient rounded to a double. Sample \<open>i\<close> is the float32 nearest to
  \<open>src[idx] + frac * (src[idx + 1] - src[idx])\<close> computed in doubles, each operation
  rounded, where \<open>pos\<close> is the double nearest to \<open>i * ratio\<close>, \<open>idx = floor pos\<close> and
  \<open>frac = pos - idx\<close>, which is exact and lies in \<open>[0, 1)\<close>; a source sample at or past
  the end of the buffer reads as 0. Nothing but these two samples enters an output
  sample: there is no filter.
\<close>

theorem resample_rounded_interpolation:
  assumes "0 < srcSR" and "srcSR \<noteq> TARGET_SR"
  shows "\<exists>out. resample f32 srcSR = Inr out
     \<and> length out = nat (js_round (length_quotient (length f32) (fl (srcSR / TARGET_SR))))
     \<and> (\<forall>i < length out.
          let pos = fl (real i * fl (srcSR / TARGET_SR)); idx = nat \<lfloor>pos\<rfloor>;
              frac = pos - real idx;
              a = (if idx < length f32 then f32 ! idx else 0);
              b = (if idx + 1 < length f32 then f32 ! (idx + 1) else 0)
          in 0 \<le> frac \<and> frac < 1
             \<and> out ! i = fr32 (fl (a + fl (frac * fl (b - a)))))"
proof -
  let ?ratio = "fl (srcSR / TARGET_SR)"
  let ?m = "nat (js_round (length_quotient (length f32) ?ratio))"
  let ?out = "map (resample_at f32 ?ratio) [0..<?m]"
  have "0 < srcSR / TARGET_SR" using assms(1) by (simp add: TARGET_SR_def)
  then have "0 < ?ratio" by (rule fl_pos)
  then have r0: "0 \<le> ?ratio" by simp
  have eq: "resample f32 srcSR = Inr ?out" using assms by (rule resample_Inr)
  have len: "length ?out = ?m" by simp
  have pt: "let pos = fl (real i * ?ratio); idx = nat \<lfloor>pos\<rfloor>; frac = pos - real idx;
              a = (if idx < length f32 then f32 ! idx else 0);
              b = (if idx + 1 < length f32 then f32 ! (idx + 1) else 0)
          in 0 \<le> frac \<and> frac < 1
             \<and> ?out ! i = fr32 (fl (a + fl (frac * fl (b - a))))"
    if i: "i < ?m" for i
  proof -
    have "?out ! i = resample_at f32 ?ratio i" using i by simp
    then show ?thesis using resample_at_formula [OF r0, of i f32] by (simp only: Let_def)
  qed
  from eq len pt show ?thesis by (intro exI [of _ ?out]) (simp only: len, blast)
qed

theorem resample_rounded_interpolation_witness:
  "(0 :: real) < 24000 \<and> (24000 :: real) \<noteq> TARGET_SR
   \<and> resample [1, 3, 5] 24000 = Inr [1, 4]
   \<and> [1, 4 :: real] ! 1 = fr32 (fl (3 + fl (1 / 2 * fl (5 - 3))))
   \<and> fl (real 1 * fl (24000 / TARGET_SR)) = 3 / 2
   \<and> nat (js_round (length_quotient (length [1, 3, 5 :: real]) (fl (24000 / TARGET_SR)))) = 2"
proof -
  have h1: "(0 :: real) < 24000" by simp
  have h2: "(24000 :: real) \<noteq> TARGET_SR" by (simp add: TARGET_SR_def)
  have p: "fl (real 1 * fl (24000 / TARGET_SR)) = 3 / 2"
    by (simp add: TARGET_SR_def fl_eval)
  have fl32: "\<lfloor>3 / 2 :: real\<rfloor> = 1" by simp
  from resample_rounded_interpolation [OF h1 h2, of "[1, 3, 5]"]
  obtain out where o: "resample [1, 3, 5] 24000 = Inr out"
    and l: "length out = nat (js_round (length_quotient (length [1, 3, 5 :: real])
         (fl (24000 / TARGET_SR))))"
    and pt: "\<forall>i < length out.
          let pos = fl (real i * fl (24000 / TARGET_SR)); idx = nat \<lfloor>pos\<rfloor>;
              frac = pos - real idx;
              a = (if idx < length [1, 3, 5 :: real] then [1, 3, 5] ! idx else 0);
              b = (if idx + 1 < length [1, 3, 5 :: real] then [1, 3, 5] ! (idx + 1) else 0)
          in 0 \<le> frac \<and> frac < 1
             \<and> out ! i = fr32 (fl (a + fl (frac * fl (b - a))))"
    by blast
  have e: "out = [1, 4]" using o resample_24000 by simp
  have "(1::nat) < length out" unfolding e by simp
  with pt have "let pos = fl (real 1 * fl (24000 / TARGET_SR)); idx = nat \<lfloor>pos\<rfloor>;
              frac = pos - real idx;
              a = (if idx < length [1, 3, 5 :: real] then [1, 3, 5] ! idx else 0);
              b = (if idx + 1 < length [1, 3, 5 :: real] then [1, 3, 5] ! (idx + 1) else 0)
          in 0 \<le> frac \<and> frac < 1
             \<and> out ! 1 = fr32 (fl (a + fl (frac * fl (b - a))))"
    by blast
  then have v: "[1, 4 :: real] ! 1 = fr32 (fl (3 + fl (1 / 2 * fl (5 - 3))))"
    unfolding Let_def p fl32 e by simp
  have n: "nat (js_round (length_quotient (length [1, 3, 5 :: real]) (fl (24000 / TARGET_SR)))) = 2"
    using l unfolding e by simp
  show ?thesis using h1 h2 resample_24000 v p n by (simp only: simp_thms)
qed

section \<open>Properties of toWav\<close>

lemma js_trunc_of_nat: "js_trunc (real n) = int n"
  by (simp add: js_trunc_def)

lemma js_trunc_numeral: "js_trunc (numeral k) = numeral k" and js_trunc_1: "js_trunc 1 = 1"
  by (simp_all add: js_trunc_def)

lemma length_wav_header: "length (wav_header n sr) = 44"
  by (simp add: wav_header_def str_bytes_def le32_def le16_def)

lemma length_wav_data: "length (wav_data f32) = 2 * length f32"
  by (induction f32) (simp_all add: wav_data_def le16_def)

lemma store_at_end:
  assumes "length pre = off" and "length bs \<le> length rest"
  shows "store (pre @ rest) off bs = Inr (pre @ bs @ drop (length bs) rest)"
  using assms by (simp add: store_def)

lemma put_samples_layout:
  assumes "length pre = 44 + i * 2" and "2 * length vs \<le> length rest"
  shows "put_samples (pre @ rest) i vs = Inr (pre @ wav_data vs @ drop (2 * length vs) rest)"
  using assms
proof (induction vs arbitrary: pre rest i)
  case Nil
  then show ?case by (simp add: wav_data_def)
next
  case (Cons v vs)
  let ?bs = "le16 (pcm16 v)"
  have l: "length ?bs = 2" by (simp add: le16_def)
  have fit: "length ?bs \<le> length rest" using Cons.prems(2) l by simp
  have st: "setInt16 (pre @ rest) (44 + i * 2) (scale_sample v) =
      Inr ((pre @ ?bs) @ drop 2 rest)"
    unfolding setInt16_def pcm16_def sample_int_def [symmetric]
    using store_at_end [OF Cons.prems(1) fit] l
    by (simp add: pcm16_def)
  have ih: "put_samples ((pre @ ?bs) @ drop 2 rest) (Suc i) vs =
      Inr ((pre @ ?bs) @ wav_data vs @ drop (2 * length vs) (drop 2 rest))"
    using Cons.prems l by (intro Cons.IH) simp_all
  show ?case
    by (simp only: put_samples.simps st ih sum.case)
       (simp add: wav_data_def add.commute)
qed

lemma toWav_header:
  "toWav f32 sr =
     put_samples (wav_header (length f32) sr @ replicate (length f32 * 2) 0) 0 f32"
  by (simp add: toWav_def seq_def Let_def wav_header_def str_bytes_def setUint8_def
      setUint16_def setUint32_def store_def le32_def le16_def js_trunc_numeral js_trunc_1)

lemma toWav_layout: "toWav f32 sr = Inr (wav_header (length f32) sr @ wav_data f32)"
  unfolding toWav_header
  using put_samples_layout [of "wav_header (length f32) sr" 0 f32 "replicate (length f32 * 2) 0"]
  by (simp add: length_wav_header)

lemma le_bytes_nat:
  assumes "a < 4294967296"
  shows "a mod 256 + 256 * (a div 256 mod 256) + 65536 * (a div 65536 mod 256)
     + 16777216 * (a div 16777216 mod 256) = (a :: nat)"
proof -
  define b where "b = a div 256"
  define c where "c = b div 256"
  define d where "d = c div 256"
  have e1: "a div 65536 = c" by (simp add: b_def c_def div_mult2_eq)
  have e2: "a div 16777216 = d" by (simp add: b_def c_def d_def div_mult2_eq)
  have "d < 256" using assms unfolding e2 [symmetric] by (simp add: less_mult_imp_div_less)
  then have d: "d mod 256 = d" by simp
  have a: "a = a mod 256 + 256 * b" unfolding b_def by simp
  have b: "b = b mod 256 + 256 * c" unfolding c_def by simp
  have c: "c = c mod 256 + 256 * d" unfolding d_def by simp
  show ?thesis unfolding e1 e2 d b_def [symmetric] using a b c by linarith
qed

lemma unat_byte0: "unat (ucast (x :: 32 word) :: byte) = unat x mod 256"
  by (simp add: unsigned_ucast_eq take_bit_eq_mod)

lemma unat_byte_k: "unat (ucast (drop_bit k (x :: 32 word)) :: byte) = unat x div 2 ^ k mod 256"
proof -
  have "unat (drop_bit k x) = drop_bit k (unat x)" by (rule unat_drop_bit_eq)
  also have "\<dots> = unat x div 2 ^ k" by (rule drop_bit_eq_div)
  finally have e: "unat (drop_bit k x) = unat x div 2 ^ k" .
  have "unat (ucast (drop_bit k x) :: byte) = unat (drop_bit k x) mod 256"
    by (simp add: unsigned_ucast_eq take_bit_eq_mod del: drop_bit_eq_div)
  then show ?thesis unfolding e .
qed

lemma rd32_le32: "rd32 (pre @ le32 x @ post) (length pre) = unat x"
proof -
  have b: "unat x < 4294967296" using unsigned_less [of x] by simp
  have "rd32 (pre @ le32 x @ post) (length pre) =
      unat x mod 256 + 256 * (unat x div 256 mod 256)
      + 65536 * (unat x div 65536 mod 256) + 16777216 * (unat x div 16777216 mod 256)"
    unfolding rd32_def le32_def
    using unat_byte_k [of 8 x] unat_byte_k [of 16 x] unat_byte_k [of 24 x]
    by (simp add: nth_append unat_byte0)
  also have "\<dots> = unat x" using b by (rule le_bytes_nat)
  finally show ?thesis .
qed
lemma hdr_fields:
  "rd16 (wav_header n sr @ d) 20 = 1 \<and> rd16 (wav_header n sr @ d) 22 = 1
   \<and> rd16 (wav_header n sr @ d) 32 = 2 \<and> rd16 (wav_header n sr @ d) 34 = 16
   \<and> rd32 (wav_header n sr @ d) 16 = 16
   \<and> take 4 (wav_header n sr @ d) = str_bytes ''RIFF''"
  by (simp add: wav_header_def str_bytes_def le32_def le16_def rd16_def rd32_def del: of_nat_add of_nat_mult)

lemma hdr_sr: "rd32 (wav_header n 16000 @ d) 24 = 16000 \<and> rd32 (wav_header n 16000 @ d) 28 = 32000"
  by (simp add: wav_header_def str_bytes_def le32_def le16_def rd16_def rd32_def js_trunc_def)

lemma hdr_sizes: "rd32 (wav_header n sr @ d) 40 = (n * 2) mod 2 ^ 32 \<and>
   rd32 (wav_header n sr @ d) 4 = (36 + n * 2) mod 2 ^ 32"
proof -
  have u: "unat (word_of_int (js_trunc (real k)) :: 32 word) = k mod 2 ^ 32" for k
    by (simp only: js_trunc_of_nat of_int_of_nat_eq unat_of_nat) simp
  let ?p40 = "str_bytes ''RIFF'' @ le32 (word_of_int (js_trunc (real (36 + n * 2)))) @
     str_bytes ''WAVE'' @
     str_bytes ''fmt '' @ le32 16 @ le16 1 @ le16 1 @ le32 (word_of_int (js_trunc sr)) @
     le32 (word_of_int (js_trunc (sr * 2))) @ le16 2 @ le16 16 @ str_bytes ''data''"
  have l40: "length ?p40 = 40" by (simp add: str_bytes_def le32_def le16_def)
  have "wav_header n sr @ d = ?p40 @ le32 (word_of_int (js_trunc (real (n * 2)))) @ d"
    by (simp only: wav_header_def append_assoc)
  then have a: "rd32 (wav_header n sr @ d) 40 =
      unat (word_of_int (js_trunc (real (n * 2))) :: 32 word)"
    using rd32_le32 [of ?p40 "word_of_int (js_trunc (real (n * 2)))" d]
    by (simp only: l40)
  let ?rest = "str_bytes ''WAVE'' @
     str_bytes ''fmt '' @ le32 16 @ le16 1 @ le16 1 @ le32 (word_of_int (js_trunc sr)) @
     le32 (word_of_int (js_trunc (sr * 2))) @ le16 2 @ le16 16 @ str_bytes ''data'' @
     le32 (word_of_int (js_trunc (real (n * 2)))) @ d"
  have l4: "length (str_bytes ''RIFF'') = 4" by (simp add: str_bytes_def)
  have "wav_header n sr @ d =
      str_bytes ''RIFF'' @ le32 (word_of_int (js_trunc (real (36 + n * 2)))) @ ?rest"
    by (simp only: wav_header_def append_assoc)
  then have b: "rd32 (wav_header n sr @ d) 4 =
      unat (word_of_int (js_trunc (real (36 + n * 2))) :: 32 word)"
    using rd32_le32 [of "str_bytes ''RIFF''" "word_of_int (js_trunc (real (36 + n * 2)))" ?rest]
    by (simp only: l4)
  show ?thesis by (simp only: a b u simp_thms)
qed

text \<open>
  Claim C7. For every buffer of \<open>n\<close> samples the encoder returns (it raises nothing) a
  container of \<open>44 + 2 * n\<close> bytes: a 44-byte RIFF/WAVE header followed by the encoded
  payload, which is exactly \<open>2 * n\<close> bytes (two per sample). The header declares PCM
  (format 1), one channel, block size 2, 16 bits per sample and a data size of \<open>2 * n\<close>
  (modulo \<open>2 ^ 32\<close>, the width of the field); called with the target rate, as the chunker
  does, it declares 16000 Hz and 32000 bytes per second.
\<close>

theorem toWav_size:
  "(\<exists>w. toWav f32 sr = Inr w
     \<and> length w = 44 + 2 * length f32
     \<and> drop 44 w = wav_data f32
     \<and> length (drop 44 w) = 2 * length f32
     \<and> take 4 w = str_bytes ''RIFF''
     \<and> rd32 w 4 = (36 + length f32 * 2) mod 2 ^ 32
     \<and> rd16 w 20 = 1 \<and> rd16 w 22 = 1 \<and> rd16 w 32 = 2 \<and> rd16 w 34 = 16
     \<and> rd32 w 40 = (length f32 * 2) mod 2 ^ 32)
   \<and> (\<exists>w. toWav f32 TARGET_SR = Inr w \<and> rd32 w 24 = 16000 \<and> rd32 w 28 = 32000)"
proof -
  let ?w = "wav_header (length f32) sr @ wav_data f32"
  have e: "toWav f32 sr = Inr ?w" by (rule toWav_layout)
  have l: "length ?w = 44 + 2 * length f32"
    by (simp add: length_wav_header length_wav_data)
  have d: "drop 44 ?w = wav_data f32" by (simp add: length_wav_header)
  have dl: "length (drop 44 ?w) = 2 * length f32" unfolding d by (rule length_wav_data)
  note f = hdr_fields [of "length f32" sr "wav_data f32"]
  note z = hdr_sizes [of "length f32" sr "wav_data f32"]
  have first: "\<exists>w. toWav f32 sr = Inr w
     \<and> length w = 44 + 2 * length f32
     \<and> drop 44 w = wav_data f32
     \<and> length (drop 44 w) = 2 * length f32
     \<and> take 4 w = str_bytes ''RIFF''
     \<and> rd32 w 4 = (36 + length f32 * 2) mod 2 ^ 32
     \<and> rd16 w 20 = 1 \<and> rd16 w 22 = 1 \<and> rd16 w 32 = 2 \<and> rd16 w 34 = 16
     \<and> rd32 w 40 = (length f32 * 2) mod 2 ^ 32"
    using e l d dl f z by (intro exI [of _ ?w]) (simp only: simp_thms)
  have second: "\<exists>w. toWav f32 TARGET_SR = Inr w \<and> rd32 w 24 = 16000 \<and> rd32 w 28 = 32000"
    using toWav_layout [of f32 TARGET_SR] hdr_sr [of "length f32" "wav_data f32"]
    by (simp add: TARGET_SR_def)
  from first second show ?thesis ..
qed

text \<open>The container of two samples, one of them out of range, byte by byte.\<close>

lemma toWav_example:
  "toWav [1 / 2, - 2] 16000 =
     Inr [82, 73, 70, 70, 40, 0, 0, 0, 87, 65, 86, 69, 102, 109, 116, 32, 16, 0,
      0, 0, 1, 0, 1, 0, 128, 62, 0, 0, 0, 125, 0, 0, 2, 0, 16, 0, 100, 97,
      116, 97, 4, 0, 0, 0, 255, 63, 0, 128]"
  by (simp add: toWav_layout wav_header_def wav_data_def str_bytes_def le32_def le16_def
      pcm16_def sample_int_def scale_sample_def clamp_sample_def js_trunc_def)

section \<open>Properties of the session configuration\<close>

lemma ui_step_nb: "nbLocuteurs c \<in> {1, 2} \<Longrightarrow> nbLocuteurs (ui_step c e) \<in> {1, 2}"
  by (cases e) (auto simp: engine_effect_def)

lemma ui_run_nb: "nbLocuteurs c \<in> {1, 2} \<Longrightarrow> nbLocuteurs (ui_run c evs) \<in> {1, 2}"
  unfolding ui_run_def
proof (induction evs arbitrary: c)
  case Nil
  then show ?case by simp
next
  case (Cons e evs)
  from Cons.prems have "nbLocuteurs (ui_step c e) \<in> {1, 2}" by (rule ui_step_nb)
  then show ?case using Cons.IH by simp
qed

lemma buildPayload_fields:
  "p_engine (buildPayload c b64) = engine c \<and> nb_locuteurs (buildPayload c b64) = nbLocuteurs c
   \<and> audio (buildPayload c b64) = b64"
  by (simp add: buildPayload_def Let_def)

text \<open>
  Claim C4. In every message the client builds, whatever the settings panel was used
  for, the speaker count respects the floor of the engine in \<^verbatim>\<open>NB_MIN\<close>: 0 for
  Gladia, 1 for Vosk and Whisper. The floor lets a count of 0 pass for Gladia and for
  no other engine. (The count the client sends is in fact always 1 or 2.)
\<close>

theorem speaker_count_floor:
  "respects_floor (p_engine (buildPayload (ui_run init_config evs) b64))
                  (nb_locuteurs (buildPayload (ui_run init_config evs) b64))
   \<and> nb_locuteurs (buildPayload (ui_run init_config evs) b64) \<in> {1, 2}
   \<and> NB_MIN Gladia = 0 \<and> NB_MIN Vosk = 1 \<and> NB_MIN Whisper = 1
   \<and> respects_floor Gladia 0 \<and> \<not> respects_floor Vosk 0 \<and> \<not> respects_floor Whisper 0"
proof -
  have "nbLocuteurs init_config \<in> {1, 2}" by (simp add: init_config_def)
  then have nb: "nbLocuteurs (ui_run init_config evs) \<in> {1, 2}" by (rule ui_run_nb)
  then have "NB_MIN e \<le> nbLocuteurs (ui_run init_config evs)" for e
    by (cases e) (auto simp: NB_MIN_def)
  then show ?thesis using nb
    by (simp add: buildPayload_fields respects_floor_def NB_MIN_def)
qed

theorem speaker_count_floor_witness:
  "buildPayload (ui_run init_config [ClickSeul, SetEngine Gladia, ClickSeul]) ''UklGRg=='' =
     \<lparr>audio = ''UklGRg=='', p_engine = Gladia, nb_locuteurs = 1, modele_vosk = None,
      config_whisper = None, methode_bruit = None, type_environnement = None\<rparr>
   \<and> respects_floor Gladia 1 \<and> respects_floor Gladia 0"
  using speaker_count_floor [of "[ClickSeul, SetEngine Gladia, ClickSeul]" "''UklGRg==''"]
  by (simp add: buildPayload_def ui_run_def init_config_def engine_effect_def
      respects_floor_def NB_MIN_def)

section \<open>Properties of the transport queue\<close>

lemma processQueue_inv: "transport_pre s \<Longrightarrow> transport_inv (processQueue s)"
  by (cases "wsQueue s")
     (auto simp: transport_inv_def transport_pre_def processQueue_def outstanding_def Let_def)

lemma transport_cong:
  assumes "encoding s' = encoding s" "sockets s' = sockets s" "wsBusy s' = wsBusy s"
    "wsQueue s' = wsQueue s" "pushed s' = pushed s" "dispatched s' = dispatched s"
  shows "transport_pre s' = transport_pre s" and "transport_inv s' = transport_inv s"
  using assms by (simp_all add: transport_inv_def transport_pre_def outstanding_def)

lemma transport_upd [simp]:
  "transport_inv (isRecording_update f1 s) = transport_inv s"
  "transport_inv (transcript_update f2 s) = transport_inv s"
  "transport_inv (wsStatus_update f3 s) = transport_inv s"
  "transport_inv (error_shown_update f4 s) = transport_inv s"
  "transport_inv (logs_update f5 s) = transport_inv s"
  "transport_inv (statSent_update f6 s) = transport_inv s"
  "transport_inv (statDone_update f7 s) = transport_inv s"
  "transport_inv (streamRef_update f8 s) = transport_inv s"
  "transport_inv (actxRef_update f9 s) = transport_inv s"
  "transport_inv (procRef_update f10 s) = transport_inv s"
  "transport_inv (pcmBuf_update f11 s) = transport_inv s"
  "transport_inv (nativeSR_update f12 s) = transport_inv s"
  "transport_inv (chunkTmr_update f13 s) = transport_inv s"
  "transport_inv (running_update f14 s) = transport_inv s"
  by (rule transport_cong; simp)+

lemma addLog_transport [simp]: "transport_inv (addLog t s) = transport_inv s"
  by (simp add: addLog_def)

lemma push_pre:
  "transport_inv s \<Longrightarrow>
   transport_pre (s\<lparr>wsQueue := wsQueue s @ [wav], pushed := pushed s @ [wav]\<rparr>)"
  by (simp add: transport_inv_def transport_pre_def outstanding_def)

lemma push_inv:
  "transport_inv s \<Longrightarrow>
   transport_inv (processQueue (s\<lparr>wsQueue := wsQueue s @ [wav], pushed := pushed s @ [wav]\<rparr>))"
  by (intro processQueue_inv push_pre)

lemma flushChunk_inv: "transport_inv s \<Longrightarrow> transport_inv (fst (flushChunk s))"
  by (simp add: flushChunk_def Let_def push_inv split: sum.split)

lemma remove_nth_single: "length xs \<le> 1 \<Longrightarrow> k < length xs \<Longrightarrow> remove_nth k xs = []"
  by (cases xs) (simp_all add: remove_nth_def)

lemma inv_socket:
  assumes i: "transport_inv s" and k: "k < length (sockets s)"
  shows "encoding s = [] \<and> remove_nth k (sockets s) = [] \<and> wsBusy s"
proof -
  from i have l: "length (encoding s) + length (sockets s) \<le> 1"
    by (simp add: transport_inv_def transport_pre_def outstanding_def)
  then have one: "length (sockets s) \<le> 1" by linarith
  have "length (encoding s) = 0" using l k by linarith
  then have enc: "encoding s = []" by simp
  have r: "remove_nth k (sockets s) = []" using one k by (rule remove_nth_single)
  have "sockets s \<noteq> []" using k by auto
  then have "wsBusy s" using i by (simp add: transport_inv_def transport_pre_def outstanding_def)
  with enc r show ?thesis by simp
qed

lemma inv_encoding:
  assumes i: "transport_inv s" and k: "k < length (encoding s)"
  shows "sockets s = [] \<and> remove_nth k (encoding s) = [] \<and> wsBusy s"
proof -
  from i have l: "length (encoding s) + length (sockets s) \<le> 1"
    by (simp add: transport_inv_def transport_pre_def outstanding_def)
  then have one: "length (encoding s) \<le> 1" by linarith
  have "length (sockets s) = 0" using l k by linarith
  then have sock: "sockets s = []" by simp
  have r: "remove_nth k (encoding s) = []" using one k by (rule remove_nth_single)
  have "encoding s \<noteq> []" using k by auto
  then have "wsBusy s" using i by (simp add: transport_inv_def transport_pre_def outstanding_def)
  with sock r show ?thesis by simp
qed

lemma onclose_inv: "transport_inv s \<Longrightarrow> transport_inv (onclose k s)"
proof (cases "k < length (sockets s)")
  case False
  assume "transport_inv s"
  with False show ?thesis by (simp add: onclose_def)
next
  case True
  assume i: "transport_inv s"
  note f = inv_socket [OF i True]
  have "transport_pre ((addLog RECV (s\<lparr>sockets := []\<rparr>))\<lparr>wsBusy := False\<rparr>)"
    using i f by (simp add: transport_inv_def transport_pre_def outstanding_def addLog_def)
  then show ?thesis using True f by (simp add: onclose_def processQueue_inv)
qed

lemma onEncoded_inv: "transport_inv s \<Longrightarrow> transport_inv (onEncoded k ok s)"
proof (cases "k < length (encoding s)")
  case False
  assume "transport_inv s"
  with False show ?thesis by (simp add: onEncoded_def)
next
  case True
  assume i: "transport_inv s"
  note f = inv_encoding [OF i True]
  have k0: "encoding s = [encoding s ! k]" using f True
    by (cases "encoding s") (auto simp add: remove_nth_def)
  show ?thesis
  proof (cases ok)
    case False
    have "transport_pre ((addLog ERR (s\<lparr>encoding := []\<rparr>))\<lparr>wsBusy := False\<rparr>)"
      using i f by (simp add: transport_inv_def transport_pre_def outstanding_def addLog_def)
    then show ?thesis using True False f by (simp add: onEncoded_def processQueue_inv Let_def)
  next
    case ok: True
    have "transport_inv (s\<lparr>encoding := [], sockets := [encoding s ! k]\<rparr>)"
      using i f k0 by (auto simp add: transport_inv_def transport_pre_def outstanding_def)
    then show ?thesis using True ok f by (simp add: onEncoded_def Let_def)
  qed
qed

lemma onmessage_inv: "transport_inv (onmessage k m s) = transport_inv s"
  by (simp add: onmessage_def Let_def split: server_msg.split option.split)

lemma onerror_inv: "transport_inv (onerror k s) = transport_inv s"
  by (simp add: onerror_def)

lemma onaudioprocess_inv: "transport_inv (onaudioprocess f s) = transport_inv s"
  by (simp add: onaudioprocess_def)

lemma stopRecording_inv: "transport_inv s \<Longrightarrow> transport_inv (fst (stopRecording s))"
proof -
  assume i: "transport_inv s"
  let ?s1 = "s\<lparr>running := False, isRecording := False, wsStatus := Disconnected,
                 chunkTmr := False\<rparr>"
  obtain s2 ex where f: "flushChunk ?s1 = (s2, ex)" by (cases "flushChunk ?s1")
  have "transport_inv (fst (flushChunk ?s1))" using i by (intro flushChunk_inv) simp
  then have "transport_inv s2" using f by simp
  then show ?thesis
    by (cases ex) (simp_all add: stopRecording_def Let_def f)
qed

lemma step_inv: "transport_inv s \<Longrightarrow> transport_inv (step s e)"
  by (cases e)
     (simp_all add: flushChunk_inv onclose_inv onEncoded_inv onmessage_inv onerror_inv
       onaudioprocess_inv stopRecording_inv clearTranscript_def saveRecording_def)

lemma run_inv: "transport_inv s \<Longrightarrow> transport_inv (run s evs)"
  unfolding run_def
  by (induction evs arbitrary: s) (simp_all add: step_inv)

lemma started_inv: "transport_inv (started sr)"
  by (simp add: transport_inv_def transport_pre_def outstanding_def started_def)

lemma onclose_next:
  assumes i: "transport_inv s" and k: "k < length (sockets s)"
  shows "next_dispatched s (onclose k s)"
proof -
  note f = inv_socket [OF i k]
  show ?thesis using k f
    by (cases "wsQueue s")
       (simp_all add: next_dispatched_def onclose_def processQueue_def addLog_def
         outstanding_def Let_def)
qed

lemma onEncoded_fail_next:
  assumes i: "transport_inv s" and k: "k < length (encoding s)"
  shows "next_dispatched s (onEncoded k False s)"
proof -
  note f = inv_encoding [OF i k]
  show ?thesis using k f
    by (cases "wsQueue s")
       (simp_all add: next_dispatched_def onEncoded_def processQueue_def addLog_def
         outstanding_def Let_def)
qed

lemma flushChunk_push:
  assumes i: "transport_inv s" and p: "pushed (fst (flushChunk s)) = pushed s @ [wav]"
  shows "if wsBusy s
         then wsQueue (fst (flushChunk s)) = wsQueue s @ [wav]
            \<and> outstanding (fst (flushChunk s)) = outstanding s
            \<and> dispatched (fst (flushChunk s)) = dispatched s
         else wsQueue (fst (flushChunk s)) = []
            \<and> outstanding (fst (flushChunk s)) = [wav]
            \<and> dispatched (fst (flushChunk s)) = dispatched s @ [wav]"
proof (cases "wsBusy s")
  case True
  then show ?thesis using p
    by (auto simp add: flushChunk_def Let_def processQueue_def addLog_def outstanding_def
        split: if_splits sum.splits)
next
  case False
  then have q: "wsQueue s = []" "encoding s = []" "sockets s = []" using i
    by (auto simp add: transport_inv_def transport_pre_def outstanding_def)
  show ?thesis using p False q
    by (auto simp add: flushChunk_def Let_def processQueue_def addLog_def outstanding_def
        split: if_splits sum.splits)
qed

text \<open>
  Within one recording, the sequencing holds. After any sequence of events that follows
  the first start of a freshly mounted page and holds no second start (frames, ticks,
  conversions ending, messages, errors and closes, the stop, at any pace and so for any
  chunk interval):
  at most one send has begun and not completed, and the busy flag is set exactly then;
  the chunks dispatched are an initial segment of the chunks pushed, in the order of
  their creation, the rest being the queue; the send in progress is the chunk dispatched
  last; a chunk waits only while a send is in progress. When the send in progress
  completes, by a close of its socket or by a failing constructor, the busy flag is
  cleared and the head of the queue, if any, is dispatched in the same handler. A chunk
  pushed by a tick is dispatched at once when no send is in progress and waits otherwise.
\<close>

lemma sequencing_within_recording:
  "let s = run (started sr) evs in
     length (outstanding s) \<le> 1
   \<and> wsBusy s = (outstanding s \<noteq> [])
   \<and> pushed s = dispatched s @ wsQueue s
   \<and> (outstanding s = [] \<or> outstanding s = [last (dispatched s)])
   \<and> (wsQueue s = [] \<or> wsBusy s)
   \<and> (\<forall>k < length (sockets s). next_dispatched s (step s (SockClose k)))
   \<and> (\<forall>k < length (encoding s). next_dispatched s (step s (Encoded k False)))
   \<and> (\<forall>wav. pushed (step s Tick) = pushed s @ [wav] \<longrightarrow>
         (if wsBusy s
          then wsQueue (step s Tick) = wsQueue s @ [wav]
             \<and> outstanding (step s Tick) = outstanding s
             \<and> dispatched (step s Tick) = dispatched s
          else wsQueue (step s Tick) = []
             \<and> outstanding (step s Tick) = [wav]
             \<and> dispatched (step s Tick) = dispatched s @ [wav]))"
proof -
  let ?s = "run (started sr) evs"
  have i: "transport_inv ?s" using started_inv by (rule run_inv)
  then have j: "length (outstanding ?s) \<le> 1" "wsBusy ?s = (outstanding ?s \<noteq> [])"
    "pushed ?s = dispatched ?s @ wsQueue ?s"
    "outstanding ?s = [] \<or> outstanding ?s = [last (dispatched ?s)]"
    "wsQueue ?s = [] \<or> wsBusy ?s"
    by (auto simp add: transport_inv_def transport_pre_def)
  have a: "\<forall>k < length (sockets ?s). next_dispatched ?s (step ?s (SockClose k))"
    using i by (simp add: onclose_next)
  have b: "\<forall>k < length (encoding ?s). next_dispatched ?s (step ?s (Encoded k False))"
    using i by (simp add: onEncoded_fail_next)
  have c: "if wsBusy ?s
          then wsQueue (step ?s Tick) = wsQueue ?s @ [wav]
             \<and> outstanding (step ?s Tick) = outstanding ?s
             \<and> dispatched (step ?s Tick) = dispatched ?s
          else wsQueue (step ?s Tick) = []
             \<and> outstanding (step ?s Tick) = [wav]
             \<and> dispatched (step ?s Tick) = dispatched ?s @ [wav]"
    if p: "pushed (step ?s Tick) = pushed ?s @ [wav]" for wav
  proof (cases "chunkTmr ?s")
    case True
    with p have "pushed (fst (flushChunk ?s)) = pushed ?s @ [wav]" by simp
    with i have "if wsBusy ?s
         then wsQueue (fst (flushChunk ?s)) = wsQueue ?s @ [wav]
            \<and> outstanding (fst (flushChunk ?s)) = outstanding ?s
            \<and> dispatched (fst (flushChunk ?s)) = dispatched ?s
         else wsQueue (fst (flushChunk ?s)) = []
            \<and> outstanding (fst (flushChunk ?s)) = [wav]
            \<and> dispatched (fst (flushChunk ?s)) = dispatched ?s @ [wav]"
      by (rule flushChunk_push)
    with True show ?thesis by simp
  next
    case False
    with p show ?thesis by simp
  qed
  from j a b c show ?thesis unfolding Let_def by blast
qed

text \<open>
  The threshold is the double \<^verbatim>\<open>0x1.0624dd2f1a9fcp-8\<close>. A buffer of one sample
  \<open>1 / 2 ^ k\<close> has this sample as its root mean square, computed without error.
\<close>

lemma SILENCE_value: "SILENCE = 4611686018427388 / 2 ^ 60"
proof -
  have p8: "(2::real) powr of_int (- 8) = 1 / 256" and p7: "(2::real) powr of_int (- 8 + 1) = 1 / 128"
    by (simp_all add: powr_minus_divide)
  have "(2::real) powr of_int (- 8) \<le> 4 / 1000 \<and> 4 / 1000 < (2::real) powr of_int (- 8 + 1)"
    unfolding p8 p7 by simp
  then have "\<lfloor>log 2 (4 / 1000 :: real)\<rfloor> = - 8"
    by (subst floor_log_eq_powr_iff) simp_all
  then have e: "\<lfloor>log 2 \<bar>4 / 1000 :: real\<bar>\<rfloor> = - 8" by simp
  have "(2::real) powr real (60::nat) = 2 ^ 60" by (rule powr_realpow) simp
  then have u: "2 powr of_int (- 8 - (int 53 - 1)) = (1 / 2 ^ 60 :: real)"
    by (simp add: powr_minus_divide)
  have r: "round_even (4 / 1000 / (1 / 2 ^ 60)) = 4611686018427387 + 1"
    by (rule round_even_up) simp_all
  show ?thesis
    by (simp only: SILENCE_def fl_def rnd_def binade_def option.case e u r Let_def) simp
qed

lemma rms_pow2: "rms [1 / 2 ^ k] = Some (1 / 2 ^ k)"
proof -
  have sq: "1 / 2 ^ k * (1 / 2 ^ k) = (of_int 1 / 2 ^ (k + k) :: real)"
    by (simp add: power_add)
  have f2: "fl (of_int 1 / 2 ^ (k + k)) = of_int 1 / 2 ^ (k + k)"
    by (rule fl_dyadic) simp
  have f1: "fl (of_int 1 / 2 ^ k) = of_int 1 / 2 ^ k"
    by (rule fl_dyadic) simp
  have s: "sum_squares [1 / 2 ^ k] = of_int 1 / 2 ^ (k + k)"
    by (simp only: sum_squares_def foldl.simps add_0 sq f2)
  have "sqrt (of_int 1 / 2 ^ (k + k)) = of_int 1 / 2 ^ k"
    by (rule real_sqrt_unique) (simp_all add: power_add power2_eq_square)
  then have "fl (sqrt (fl (sum_squares [1 / 2 ^ k] / real (length [1 / 2 ^ k :: real]))))
      = of_int 1 / 2 ^ k"
    unfolding s using f1 f2 by simp
  then show ?thesis by (simp add: rms_def)
qed

lemma below_silence_half: "below_silence (rms [1 / 2]) = False"
  using rms_pow2 [of 1] by (simp add: below_silence_def SILENCE_value)

lemma below_silence_quarter: "below_silence (rms [1 / 4]) = False"
  using rms_pow2 [of 2] by (simp add: below_silence_def SILENCE_value)

text \<open>The equations that evaluate a run of events on concrete input.\<close>

lemmas client_eval = run_def started_def flushChunk_def Let_def below_silence_half
  below_silence_quarter resample_def toWav_layout addLog_def processQueue_def
  onEncoded_def onclose_def onmessage_def onerror_def onaudioprocess_def remove_nth_def
  outstanding_def stopRecording_def

text \<open>
  The two chunks of \<open>two_chunks\<close>: the first is dispatched at once and the second waits;
  when the socket of the first closes, the second is the send in progress.
\<close>

lemma two_chunks_states:
  "sockets (run (started TARGET_SR) (two_chunks @ [Encoded 0 True])) = [ex_chunk (1 / 2)]"
  "encoding (run (started TARGET_SR) (two_chunks @ [Encoded 0 True])) = []"
  "wsQueue (run (started TARGET_SR) (two_chunks @ [Encoded 0 True])) = [ex_chunk (1 / 4)]"
  "dispatched (run (started TARGET_SR) (two_chunks @ [Encoded 0 True])) = [ex_chunk (1 / 2)]"
  "encoding (run (started TARGET_SR) two_chunks) = [ex_chunk (1 / 2)]"
  "wsQueue (run (started TARGET_SR) two_chunks) = [ex_chunk (1 / 4)]"
  "wsBusy (run (started TARGET_SR) (butlast two_chunks))"
  "pushed (step (run (started TARGET_SR) (butlast two_chunks)) Tick)
     = pushed (run (started TARGET_SR) (butlast two_chunks)) @ [ex_chunk (1 / 4)]"
  "wsQueue (run (started TARGET_SR) (butlast two_chunks)) = []"
  "\<not> wsBusy (run (started TARGET_SR) [Frame [1 / 2]])"
  "pushed (step (run (started TARGET_SR) [Frame [1 / 2]]) Tick)
     = pushed (run (started TARGET_SR) [Frame [1 / 2]]) @ [ex_chunk (1 / 2)]"
  by (simp_all add: client_eval two_chunks_def ex_chunk_def)

lemma sequencing_within_recording_example:
  "length (outstanding (run (started TARGET_SR) (two_chunks @ [Encoded 0 True]))) \<le> 1
   \<and> 0 < length (sockets (run (started TARGET_SR) (two_chunks @ [Encoded 0 True])))
   \<and> outstanding (run (started TARGET_SR) (two_chunks @ [Encoded 0 True]))
        = [ex_chunk (1 / 2)]
   \<and> wsQueue (run (started TARGET_SR) (two_chunks @ [Encoded 0 True])) = [ex_chunk (1 / 4)]
   \<and> outstanding (step (run (started TARGET_SR) (two_chunks @ [Encoded 0 True])) (SockClose 0))
        = [ex_chunk (1 / 4)]
   \<and> dispatched (step (run (started TARGET_SR) (two_chunks @ [Encoded 0 True])) (SockClose 0))
        = [ex_chunk (1 / 2), ex_chunk (1 / 4)]
   \<and> 0 < length (encoding (run (started TARGET_SR) two_chunks))
   \<and> outstanding (step (run (started TARGET_SR) two_chunks) (Encoded 0 False))
        = [ex_chunk (1 / 4)]
   \<and> wsBusy (run (started TARGET_SR) (butlast two_chunks))
   \<and> wsQueue (step (run (started TARGET_SR) (butlast two_chunks)) Tick) = [ex_chunk (1 / 4)]
   \<and> \<not> wsBusy (run (started TARGET_SR) [Frame [1 / 2]])
   \<and> outstanding (step (run (started TARGET_SR) [Frame [1 / 2]]) Tick) = [ex_chunk (1 / 2)]"
proof -
  note st = two_chunks_states
  note w1 = sequencing_within_recording [of TARGET_SR "two_chunks @ [Encoded 0 True]", unfolded Let_def]
  note w2 = sequencing_within_recording [of TARGET_SR two_chunks, unfolded Let_def]
  note w3 = sequencing_within_recording [of TARGET_SR "butlast two_chunks", unfolded Let_def]
  note w4 = sequencing_within_recording [of TARGET_SR "[Frame [1 / 2]]", unfolded Let_def]
  have l: "length (outstanding (run (started TARGET_SR) (two_chunks @ [Encoded 0 True]))) \<le> 1"
    using w1 by blast
  have o: "outstanding (run (started TARGET_SR) (two_chunks @ [Encoded 0 True]))
      = [ex_chunk (1 / 2)]"
    using st by (simp add: outstanding_def)
  have c1: "next_dispatched (run (started TARGET_SR) (two_chunks @ [Encoded 0 True]))
     (step (run (started TARGET_SR) (two_chunks @ [Encoded 0 True])) (SockClose 0))"
    using w1 st(1) by simp
  have c2: "next_dispatched (run (started TARGET_SR) two_chunks)
     (step (run (started TARGET_SR) two_chunks) (Encoded 0 False))"
    using w2 st(5) by simp
  have c3: "wsQueue (step (run (started TARGET_SR) (butlast two_chunks)) Tick)
      = [ex_chunk (1 / 4)]"
    using w3 st(7,8,9) by simp
  have c4: "outstanding (step (run (started TARGET_SR) [Frame [1 / 2]]) Tick)
      = [ex_chunk (1 / 2)]"
    using w4 st(10,11) by simp
  show ?thesis using l o c1 c2 c3 c4 st
    by (simp add: next_dispatched_def)
qed

section \<open>A recording restarted while a send is in progress\<close>

text \<open>The first start of a mounted page leaves the state \<open>started\<close>.\<close>

lemma startRecording_mounted: "startRecording (Some sr) mounted = started sr"
  by (simp add: startRecording_def startRecording_begin_def startRecording_resume_def
      mounted_def started_def addLog_def)

lemmas restart_eval = client_eval startRecording_def startRecording_begin_def
  startRecording_resume_def stopped_in_flight_def stopped_queued_def ex_chunk_def

text \<open>
  Claim C1 fails across a restart. A recording is stopped while the send of its last
  chunk is in progress; the start button is enabled again. The second
  \<^verbatim>\<open>startRecording\<close> clears the busy flag although that send has not completed, so
  the first chunk of the second recording is dispatched at once: two sends are
  outstanding together. And when a chunk was waiting in the queue at the restart, the
  second \<^verbatim>\<open>startRecording\<close> empties the queue: that chunk was pushed and is never
  dispatched, whatever completes afterwards.
\<close>

theorem restart_overlaps_sends:
  "startRecording (Some TARGET_SR) mounted = started TARGET_SR
   \<and> \<not> isRecording stopped_in_flight \<and> wsStatus stopped_in_flight = Disconnected
   \<and> outstanding stopped_in_flight = [ex_chunk (1 / 2)] \<and> wsBusy stopped_in_flight
   \<and> outstanding (startRecording (Some TARGET_SR) stopped_in_flight) = [ex_chunk (1 / 2)]
   \<and> \<not> wsBusy (startRecording (Some TARGET_SR) stopped_in_flight)
   \<and> outstanding (run (startRecording (Some TARGET_SR) stopped_in_flight) [Frame [1 / 4], Tick])
        = [ex_chunk (1 / 2), ex_chunk (1 / 4)]
   \<and> length (outstanding
        (run (startRecording (Some TARGET_SR) stopped_in_flight) [Frame [1 / 4], Tick])) = 2
   \<and> \<not> isRecording stopped_queued \<and> wsStatus stopped_queued = Disconnected
   \<and> outstanding stopped_queued = [ex_chunk (1 / 2)]
   \<and> wsQueue stopped_queued = [ex_chunk (1 / 4)]
   \<and> wsQueue (startRecording (Some TARGET_SR) stopped_queued) = []
   \<and> pushed (run (startRecording (Some TARGET_SR) stopped_queued)
        [Encoded 0 True, SockClose 0]) = [ex_chunk (1 / 2), ex_chunk (1 / 4)]
   \<and> dispatched (run (startRecording (Some TARGET_SR) stopped_queued)
        [Encoded 0 True, SockClose 0]) = [ex_chunk (1 / 2)]
   \<and> outstanding (run (startRecording (Some TARGET_SR) stopped_queued)
        [Encoded 0 True, SockClose 0]) = []
   \<and> wsQueue (run (startRecording (Some TARGET_SR) stopped_queued)
        [Encoded 0 True, SockClose 0]) = []"
proof -
  have a: "startRecording (Some TARGET_SR) mounted = started TARGET_SR"
    by (rule startRecording_mounted)
  have b: "\<not> isRecording stopped_in_flight" "wsStatus stopped_in_flight = Disconnected"
    "outstanding stopped_in_flight = [ex_chunk (1 / 2)]" "wsBusy stopped_in_flight"
    by (simp_all add: restart_eval)
  have c: "outstanding (startRecording (Some TARGET_SR) stopped_in_flight) = [ex_chunk (1 / 2)]"
    "\<not> wsBusy (startRecording (Some TARGET_SR) stopped_in_flight)"
    "outstanding (run (startRecording (Some TARGET_SR) stopped_in_flight) [Frame [1 / 4], Tick])
        = [ex_chunk (1 / 2), ex_chunk (1 / 4)]"
    by (simp_all add: restart_eval)
  have d: "\<not> isRecording stopped_queued" "wsStatus stopped_queued = Disconnected"
    "outstanding stopped_queued = [ex_chunk (1 / 2)]"
    "wsQueue stopped_queued = [ex_chunk (1 / 4)]"
    "wsQueue (startRecording (Some TARGET_SR) stopped_queued) = []"
    by (simp_all add: restart_eval)
  have e: "pushed (run (startRecording (Some TARGET_SR) stopped_queued)
        [Encoded 0 True, SockClose 0]) = [ex_chunk (1 / 2), ex_chunk (1 / 4)]"
    "dispatched (run (startRecording (Some TARGET_SR) stopped_queued)
        [Encoded 0 True, SockClose 0]) = [ex_chunk (1 / 2)]"
    "outstanding (run (startRecording (Some TARGET_SR) stopped_queued)
        [Encoded 0 True, SockClose 0]) = []"
    "wsQueue (run (startRecording (Some TARGET_SR) stopped_queued)
        [Encoded 0 True, SockClose 0]) = []"
    by (simp_all add: restart_eval)
  have l: "length (outstanding
        (run (startRecording (Some TARGET_SR) stopped_in_flight) [Frame [1 / 4], Tick])) = 2"
    unfolding c(3) by simp
  from a b c d e l show ?thesis by (simp only: simp_thms)
qed

section \<open>Properties of the chunker\<close>

lemma resample_total:
  assumes "0 < srcSR"
  shows "\<exists>r. resample f32 srcSR = Inr r"
proof (cases "srcSR = TARGET_SR")
  case True
  then show ?thesis by (simp add: resample_def)
next
  case False
  with assms show ?thesis using resample_Inr [of srcSR f32] by simp
qed

lemma processQueue_keeps:
  "pushed (processQueue s) = pushed s"
  "dispatched (processQueue s) @ wsQueue (processQueue s) = dispatched s @ wsQueue s"
  "statSent (processQueue s) = statSent s" "logs (processQueue s) = logs s"
  "pcmBuf (processQueue s) = pcmBuf s"
  by (cases "wsQueue s"; simp add: processQueue_def Let_def)+

lemma concat_nonempty_frames:
  "\<forall>f \<in> set fs. f \<noteq> [] \<Longrightarrow> (concat fs = []) = (fs = [])"
  by (cases fs) auto

lemma last_addLog: "last (logs (addLog t s)) = t"
  by (simp add: addLog_def)

text \<open>
  The accuracy of the computed root mean square. In the sum of the squares of \<open>n\<close>
  samples a square is rounded once and goes through at most \<open>n\<close> rounded additions;
  the quotient and the square root are rounded once each.
\<close>

lemma sum_squares_accuracy:
  fixes acc E :: real
  assumes "1 \<le> a" and "0 \<le> E"
    and "(1 - unit_roundoff) ^ a * E \<le> acc" and "acc \<le> (1 + unit_roundoff) ^ a * E"
  shows "(1 - unit_roundoff) ^ (a + length xs) * (E + (\<Sum>v\<leftarrow>xs. v * v))
           \<le> foldl (\<lambda>s v. fl (s + fl (v * v))) acc xs
       \<and> foldl (\<lambda>s v. fl (s + fl (v * v))) acc xs
           \<le> (1 + unit_roundoff) ^ (a + length xs) * (E + (\<Sum>v\<leftarrow>xs. v * v))"
  using assms
proof (induction xs arbitrary: acc E a)
  case Nil
  then show ?case by simp
next
  case (Cons v xs)
  let ?u = unit_roundoff
  let ?t = "fl (v * v)"
  let ?acc = "fl (acc + ?t)"
  have u0: "0 \<le> 1 - ?u" "1 - ?u \<le> 1" "1 \<le> 1 + ?u" "0 \<le> 1 + ?u"
    by (simp_all add: unit_roundoff_def)
  have v0: "0 \<le> v * v" by simp
  have t1: "(1 - ?u) * (v * v) \<le> ?t" using fl_lower [OF v0] by (simp add: unit_roundoff_def)
  have t2: "?t \<le> (1 + ?u) * (v * v)" using fl_upper [OF v0] by (simp add: unit_roundoff_def)
  have pl: "(1 - ?u) ^ a \<le> (1 - ?u) ^ 1"
    using Cons.prems(1) u0 by (intro power_decreasing) simp_all
  have pu: "(1 + ?u) ^ 1 \<le> (1 + ?u) ^ a"
    using Cons.prems(1) u0 by (intro power_increasing) simp_all
  have "(1 - ?u) ^ a * (v * v) \<le> (1 - ?u) * (v * v)"
    using pl v0 by (intro mult_right_mono) simp_all
  then have lo: "(1 - ?u) ^ a * (E + v * v) \<le> acc + ?t"
    using Cons.prems(3) t1 by (simp add: distrib_left)
  have "(1 + ?u) * (v * v) \<le> (1 + ?u) ^ a * (v * v)"
    using pu v0 by (intro mult_right_mono) simp_all
  then have hi: "acc + ?t \<le> (1 + ?u) ^ a * (E + v * v)"
    using Cons.prems(4) t2 by (simp add: distrib_left)
  have e0: "0 \<le> E + v * v" using Cons.prems(2) by simp
  have "0 \<le> (1 - ?u) ^ a * (E + v * v)" using u0 e0 by simp
  then have s0: "0 \<le> acc + ?t" using lo by linarith
  have "(1 - ?u) * ((1 - ?u) ^ a * (E + v * v)) \<le> (1 - ?u) * (acc + ?t)"
    using lo u0 by (intro mult_left_mono) simp_all
  also have "\<dots> \<le> ?acc" using fl_lower [OF s0] by (simp add: unit_roundoff_def)
  finally have lo2: "(1 - ?u) ^ Suc a * (E + v * v) \<le> ?acc" by (simp add: mult.assoc)
  have "?acc \<le> (1 + ?u) * (acc + ?t)" using fl_upper [OF s0] by (simp add: unit_roundoff_def)
  also have "\<dots> \<le> (1 + ?u) * ((1 + ?u) ^ a * (E + v * v))"
    using hi u0 by (intro mult_left_mono) simp_all
  finally have hi2: "?acc \<le> (1 + ?u) ^ Suc a * (E + v * v)" by (simp add: mult.assoc)
  have "1 \<le> Suc a" by simp
  from Cons.IH [OF this e0 lo2 hi2] show ?case by (simp add: add.assoc)
qed

lemma sqrt_ge_self: "0 \<le> c \<Longrightarrow> c \<le> 1 \<Longrightarrow> c \<le> sqrt c"
proof -
  assume c: "0 \<le> c" "c \<le> 1"
  then have "c * c \<le> c" by (simp add: mult_left_le)
  then have "sqrt (c * c) \<le> sqrt c" by (simp only: real_sqrt_le_iff)
  then show ?thesis using c by simp
qed

lemma sqrt_le_self: "1 \<le> c \<Longrightarrow> sqrt c \<le> c"
proof -
  assume c: "1 \<le> c"
  then have "c \<le> c * c" by simp
  then have "sqrt c \<le> sqrt (c * c)" by (simp only: real_sqrt_le_iff)
  then show ?thesis using c by simp
qed

lemma rms_accuracy:
  assumes "merged \<noteq> []"
  shows "(1 - unit_roundoff) ^ (length merged + 3) * exact_rms merged
           \<le> fl (sqrt (fl (sum_squares merged / real (length merged))))"
    and "fl (sqrt (fl (sum_squares merged / real (length merged))))
           \<le> (1 + unit_roundoff) ^ (length merged + 3) * exact_rms merged"
proof -
  let ?u = unit_roundoff
  let ?n = "length merged"
  let ?S = "\<Sum>v\<leftarrow>merged. v * v"
  let ?m = "?S / real ?n"
  let ?q = "sum_squares merged / real ?n"
  have u0: "0 \<le> 1 - ?u" "1 - ?u \<le> 1" "1 \<le> 1 + ?u" "0 \<le> 1 + ?u"
    by (simp_all add: unit_roundoff_def)
  have n: "0 < real ?n" using assms by simp
  have S0: "0 \<le> ?S" by (rule sum_list_nonneg) auto
  have m0: "0 \<le> ?m" using S0 by simp
  from sum_squares_accuracy [of 1 0 0 merged]
  have s1: "(1 - ?u) ^ (?n + 1) * ?S \<le> sum_squares merged"
    and s2: "sum_squares merged \<le> (1 + ?u) ^ (?n + 1) * ?S"
    by (simp_all add: sum_squares_def add.commute)
  have q1: "(1 - ?u) ^ (?n + 1) * ?m \<le> ?q"
    using divide_right_mono [OF s1, of "real ?n"] by simp
  have q2: "?q \<le> (1 + ?u) ^ (?n + 1) * ?m"
    using divide_right_mono [OF s2, of "real ?n"] by simp
  have "0 \<le> (1 - ?u) ^ (?n + 1)" using u0(1) by (rule zero_le_power)
  then have "0 \<le> (1 - ?u) ^ (?n + 1) * ?m" using m0 by (rule mult_nonneg_nonneg)
  then have q0: "0 \<le> ?q" using q1 by linarith
  have "(1 - ?u) * ((1 - ?u) ^ (?n + 1) * ?m) \<le> (1 - ?u) * ?q"
    using q1 u0 by (intro mult_left_mono) simp_all
  also have "\<dots> \<le> fl ?q" using fl_lower [OF q0] by (simp add: unit_roundoff_def)
  finally have f1: "(1 - ?u) ^ (?n + 2) * ?m \<le> fl ?q" by (simp add: mult.assoc)
  have "fl ?q \<le> (1 + ?u) * ?q" using fl_upper [OF q0] by (simp add: unit_roundoff_def)
  also have "\<dots> \<le> (1 + ?u) * ((1 + ?u) ^ (?n + 1) * ?m)"
    using q2 u0 by (intro mult_left_mono) simp_all
  finally have f2: "fl ?q \<le> (1 + ?u) ^ (?n + 2) * ?m" by (simp add: mult.assoc)
  have c1: "0 \<le> (1 - ?u) ^ (?n + 2)" using u0(1) by (rule zero_le_power)
  have c1': "(1 - ?u) ^ (?n + 2) \<le> 1" using u0(1,2) by (rule power_le_one)
  have c2: "1 \<le> (1 + ?u) ^ (?n + 2)" using u0(3) by (rule one_le_power)
  have "(1 - ?u) ^ (?n + 2) * sqrt ?m \<le> sqrt ((1 - ?u) ^ (?n + 2)) * sqrt ?m"
    using sqrt_ge_self [OF c1 c1'] m0 by (intro mult_right_mono) simp_all
  also have "\<dots> = sqrt ((1 - ?u) ^ (?n + 2) * ?m)" by (simp only: real_sqrt_mult)
  also have "\<dots> \<le> sqrt (fl ?q)" using f1 by (simp only: real_sqrt_le_iff)
  finally have r1: "(1 - ?u) ^ (?n + 2) * sqrt ?m \<le> sqrt (fl ?q)" .
  have "sqrt (fl ?q) \<le> sqrt ((1 + ?u) ^ (?n + 2) * ?m)" using f2 by (simp only: real_sqrt_le_iff)
  also have "\<dots> = sqrt ((1 + ?u) ^ (?n + 2)) * sqrt ?m" by (simp only: real_sqrt_mult)
  also have "\<dots> \<le> (1 + ?u) ^ (?n + 2) * sqrt ?m"
    using sqrt_le_self [OF c2] m0 by (intro mult_right_mono) simp_all
  finally have r2: "sqrt (fl ?q) \<le> (1 + ?u) ^ (?n + 2) * sqrt ?m" .
  have r0: "0 \<le> sqrt (fl ?q)" using fl_nonneg [OF q0] by simp
  have "(1 - ?u) * ((1 - ?u) ^ (?n + 2) * sqrt ?m) \<le> (1 - ?u) * sqrt (fl ?q)"
    using r1 u0 by (intro mult_left_mono) simp_all
  also have "\<dots> \<le> fl (sqrt (fl ?q))" using fl_lower [OF r0] by (simp add: unit_roundoff_def)
  finally show "(1 - ?u) ^ (?n + 3) * exact_rms merged \<le> fl (sqrt (fl ?q))"
    by (simp add: exact_rms_def mult.assoc eval_nat_numeral)
  have "fl (sqrt (fl ?q)) \<le> (1 + ?u) * sqrt (fl ?q)"
    using fl_upper [OF r0] by (simp add: unit_roundoff_def)
  also have "\<dots> \<le> (1 + ?u) * ((1 + ?u) ^ (?n + 2) * sqrt ?m)"
    using r2 u0 by (intro mult_left_mono) simp_all
  finally show "fl (sqrt (fl ?q)) \<le> (1 + ?u) ^ (?n + 3) * exact_rms merged"
    by (simp add: exact_rms_def mult.assoc eval_nat_numeral)
qed

lemma rms_quiet: "rms [1 / 1024, - 1 / 1024] = Some (1 / 1024)"
proof -
  have s: "sum_squares [1 / 1024, - 1 / 1024] = 1 / 524288"
    by (simp add: sum_squares_def fl_eval)
  have q: "fl (1 / 524288 / real (length [1 / 1024, - 1 / 1024 :: real])) = 1 / 1048576"
    by (simp add: fl_eval)
  have r: "sqrt (1 / 1048576) = 1 / 1024"
    by (rule real_sqrt_unique) (simp_all add: power2_eq_square)
  have f: "fl (1 / 1024) = 1 / 1024"
    by (simp add: fl_eval)
  show ?thesis by (simp only: rms_def s q r f) simp
qed

text \<open>
  Claim C2. A flush of frames that are not empty (the capture node delivers frames of
  4096 samples), at a positive native rate, raises nothing and empties the capture
  buffer. If the concatenated buffer is empty, or if the root mean square that the page
  computes for it is below the threshold, the double nearest to 0.004, nothing is added
  to the queue, nothing is dispatched and the drop is logged. Otherwise exactly one
  chunk is pushed: the container of the resampled buffer. The root mean square is
  computed in doubles; for a buffer of \<open>n\<close> samples it lies within the factors
  \<open>(1 - 1 / 2 ^ 53) ^ (n + 3)\<close> and \<open>(1 + 1 / 2 ^ 53) ^ (n + 3)\<close> of the exact one.
\<close>

theorem silence_filtering:
  assumes fr: "\<forall>f \<in> set (pcmBuf s). f \<noteq> []" and sr: "0 < nativeSR s"
  shows "snd (flushChunk s) = None \<and> pcmBuf (fst (flushChunk s)) = []
    \<and> (concat (pcmBuf s) = [] \<or> below_silence (rms (concat (pcmBuf s)))
       \<longrightarrow> nothing_enqueued s (fst (flushChunk s)) \<and> last (logs (fst (flushChunk s))) = DROP)
    \<and> (concat (pcmBuf s) \<noteq> [] \<and> \<not> below_silence (rms (concat (pcmBuf s)))
       \<longrightarrow> (\<exists>r wav. resample (concat (pcmBuf s)) (nativeSR s) = Inr r
               \<and> toWav r TARGET_SR = Inr wav
               \<and> pushed (fst (flushChunk s)) = pushed s @ [wav]
               \<and> dispatched (fst (flushChunk s)) @ wsQueue (fst (flushChunk s))
                    = dispatched s @ wsQueue s @ [wav]
               \<and> statSent (fst (flushChunk s)) = statSent s + 1))
    \<and> (concat (pcmBuf s) \<noteq> []
       \<longrightarrow> (\<exists>x. rms (concat (pcmBuf s)) = Some x
               \<and> below_silence (rms (concat (pcmBuf s))) = (x < SILENCE)
               \<and> (1 - unit_roundoff) ^ (length (concat (pcmBuf s)) + 3)
                     * exact_rms (concat (pcmBuf s)) \<le> x
               \<and> x \<le> (1 + unit_roundoff) ^ (length (concat (pcmBuf s)) + 3)
                     * exact_rms (concat (pcmBuf s))))"
proof -
  let ?m = "concat (pcmBuf s)"
  have e: "(?m = []) = (pcmBuf s = [])" using fr by (rule concat_nonempty_frames)
  obtain r where r: "resample ?m (nativeSR s) = Inr r" using resample_total [OF sr] by blast
  let ?wav = "wav_header (length r) TARGET_SR @ wav_data r"
  have w: "toWav r TARGET_SR = Inr ?wav" by (rule toWav_layout)
  have acc: "?m \<noteq> [] \<longrightarrow> (\<exists>x. rms ?m = Some x \<and> below_silence (rms ?m) = (x < SILENCE)
      \<and> (1 - unit_roundoff) ^ (length ?m + 3) * exact_rms ?m \<le> x
      \<and> x \<le> (1 + unit_roundoff) ^ (length ?m + 3) * exact_rms ?m)"
    using rms_accuracy [of ?m] by (simp add: rms_def below_silence_def)
  have main: "snd (flushChunk s) = None \<and> pcmBuf (fst (flushChunk s)) = []
    \<and> (?m = [] \<or> below_silence (rms ?m)
       \<longrightarrow> nothing_enqueued s (fst (flushChunk s)) \<and> last (logs (fst (flushChunk s))) = DROP)
    \<and> (?m \<noteq> [] \<and> \<not> below_silence (rms ?m)
       \<longrightarrow> (\<exists>r wav. resample ?m (nativeSR s) = Inr r
               \<and> toWav r TARGET_SR = Inr wav
               \<and> pushed (fst (flushChunk s)) = pushed s @ [wav]
               \<and> dispatched (fst (flushChunk s)) @ wsQueue (fst (flushChunk s))
                    = dispatched s @ wsQueue s @ [wav]
               \<and> statSent (fst (flushChunk s)) = statSent s + 1))"
  proof (cases "pcmBuf s = []")
    case True
    then show ?thesis using e
      by (simp add: flushChunk_def nothing_enqueued_def addLog_def outstanding_def)
  next
    case ne: False
    then have mne: "?m \<noteq> []" using e by (simp only: simp_thms)
    show ?thesis
    proof (cases "below_silence (rms ?m)")
      case True
      then show ?thesis using ne
        by (simp add: flushChunk_def Let_def nothing_enqueued_def addLog_def outstanding_def)
    next
      case False
      have "fst (flushChunk s) = processQueue
          ((addLog SEND (s\<lparr>pcmBuf := [], statSent := statSent s + 1\<rparr>))
             \<lparr>wsQueue := wsQueue s @ [?wav], pushed := pushed s @ [?wav]\<rparr>)"
        and "snd (flushChunk s) = None"
        using ne False r w by (simp_all add: flushChunk_def Let_def addLog_def)
      then show ?thesis using mne False r w
        by (simp add: processQueue_keeps addLog_def)
    qed
  qed
  from main acc show ?thesis by blast
qed

theorem silence_filtering_witness:
  "pcmBuf (run (started TARGET_SR) [Frame [1 / 1024, - 1 / 1024]]) = [[1 / 1024, - 1 / 1024]]
   \<and> 0 < nativeSR (run (started TARGET_SR) [Frame [1 / 1024, - 1 / 1024]])
   \<and> rms [1 / 1024, - 1 / 1024] = Some (1 / 1024) \<and> 1 / 1024 < SILENCE
   \<and> exact_rms [1 / 1024, - 1 / 1024] = 1 / 1024
   \<and> nothing_enqueued (run (started TARGET_SR) [Frame [1 / 1024, - 1 / 1024]])
        (fst (flushChunk (run (started TARGET_SR) [Frame [1 / 1024, - 1 / 1024]])))
   \<and> pcmBuf (run (started TARGET_SR) [Frame [1 / 2]]) = [[1 / 2]]
   \<and> rms [1 / 2] = Some (1 / 2) \<and> \<not> 1 / 2 < SILENCE
   \<and> pushed (fst (flushChunk (run (started TARGET_SR) [Frame [1 / 2]])))
        = [wav_header 1 TARGET_SR @ wav_data [1 / 2]]
   \<and> nothing_enqueued (started TARGET_SR) (fst (flushChunk (started TARGET_SR)))"
proof -
  let ?s1 = "run (started TARGET_SR) [Frame [1 / 1024, - 1 / 1024]]"
  let ?s2 = "run (started TARGET_SR) [Frame [1 / 2]]"
  have b1: "pcmBuf ?s1 = [[1 / 1024, - 1 / 1024]]" "nativeSR ?s1 = TARGET_SR" "pushed ?s1 = []"
    and b2: "pcmBuf ?s2 = [[1 / 2]]" "nativeSR ?s2 = TARGET_SR" "pushed ?s2 = []"
    and b3: "pcmBuf (started TARGET_SR) = []" "nativeSR (started TARGET_SR) = TARGET_SR"
    by (simp_all add: run_def started_def onaudioprocess_def)
  have p: "0 < TARGET_SR" by (simp add: TARGET_SR_def)
  have q1: "rms [1 / 1024, - 1 / 1024] = Some (1 / 1024)" by (rule rms_quiet)
  have q1': "(1 / 1024 :: real) < SILENCE" by (simp add: SILENCE_value)
  have q2: "rms [1 / 2] = Some (1 / 2)" using rms_pow2 [of 1] by simp
  have q2': "\<not> (1 / 2 :: real) < SILENCE" by (simp add: SILENCE_value)
  have x: "exact_rms [1 / 1024, - 1 / 1024] = 1 / 1024"
  proof -
    have "sqrt (1 / 1048576) = 1 / 1024"
      by (rule real_sqrt_unique) (simp_all add: power2_eq_square)
    then show ?thesis by (simp add: exact_rms_def)
  qed
  have r: "resample [1 / 2] TARGET_SR = Inr [1 / 2]" by (simp add: resample_def)
  have w1: "nothing_enqueued ?s1 (fst (flushChunk ?s1))"
    using silence_filtering [of ?s1] b1 p q1 q1' by (simp add: below_silence_def)
  have w2: "pushed (fst (flushChunk ?s2)) = [wav_header 1 TARGET_SR @ wav_data [1 / 2]]"
    using silence_filtering [of ?s2] b2 p q2 q2' r
    by (simp add: below_silence_def toWav_layout)
  have w3: "nothing_enqueued (started TARGET_SR) (fst (flushChunk (started TARGET_SR)))"
    using silence_filtering [of "started TARGET_SR"] b3 p by simp
  show ?thesis using w1 w2 w3 q1 q1' q2 q2' x b1 b2 p by simp
qed

section \<open>Properties of stopRecording\<close>

lemma flushChunk_no_error:
  assumes "0 < nativeSR s"
  shows "snd (flushChunk s) = None"
proof -
  obtain r where r: "resample (concat (pcmBuf s)) (nativeSR s) = Inr r"
    using resample_total [OF assms] by blast
  show ?thesis by (simp add: flushChunk_def Let_def r toWav_layout)
qed

text \<open>The flush does not read the flags that a stop clears.\<close>

lemma flushChunk_flags:
  "fst (flushChunk (s\<lparr>running := a, isRecording := b, wsStatus := c, chunkTmr := d\<rparr>))
     = (fst (flushChunk s))\<lparr>running := a, isRecording := b, wsStatus := c, chunkTmr := d\<rparr>"
  "snd (flushChunk (s\<lparr>running := a, isRecording := b, wsStatus := c, chunkTmr := d\<rparr>))
     = snd (flushChunk s)"
  by (simp_all add: flushChunk_def Let_def addLog_def processQueue_def split: sum.split)

lemma flushChunk_busy:
  "pushed (fst (flushChunk s)) \<noteq> pushed s \<Longrightarrow> wsBusy (fst (flushChunk s))"
  by (auto simp add: flushChunk_def Let_def addLog_def processQueue_def
      split: if_splits sum.splits)

text \<open>
  Claim C9. Stopping a recording whose audio context runs at a positive rate raises
  nothing and leaves the state of one flush of the capture buffer (the very
  \<^verbatim>\<open>flushChunk\<close> of a tick, with its empty and silence checks) with a log line
  added, the running flag and the recording flag cleared, the chunk timer cleared and
  the processor, the stream and the audio context released. From then on a frame is not
  buffered and no tick arrives. The release does not depend on the transport: when the
  final flush has pushed a chunk, a send is in progress at the moment the handler
  returns.
\<close>

theorem stop_semantics:
  assumes "0 < nativeSR s"
  shows "snd (stopRecording s) = None
    \<and> (fst (stopRecording s) =
        (addLog RECV (fst (flushChunk s)))
          \<lparr>running := False, isRecording := False, wsStatus := Disconnected,
            chunkTmr := False, procRef := False, streamRef := False, actxRef := False\<rparr>)
    \<and> \<not> running (fst (stopRecording s)) \<and> \<not> chunkTmr (fst (stopRecording s))
    \<and> (\<forall>f. step (fst (stopRecording s)) (Frame f) = fst (stopRecording s))
    \<and> step (fst (stopRecording s)) Tick = fst (stopRecording s)
    \<and> pcmBuf (fst (stopRecording s)) = []
    \<and> pushed (fst (stopRecording s)) = pushed (fst (flushChunk s))
    \<and> wsQueue (fst (stopRecording s)) = wsQueue (fst (flushChunk s))
    \<and> outstanding (fst (stopRecording s)) = outstanding (fst (flushChunk s))
    \<and> \<not> procRef (fst (stopRecording s)) \<and> \<not> streamRef (fst (stopRecording s))
    \<and> \<not> actxRef (fst (stopRecording s))
    \<and> (pushed (fst (stopRecording s)) \<noteq> pushed s \<longrightarrow> wsBusy (fst (stopRecording s)))"
proof -
  let ?s1 = "s\<lparr>running := False, isRecording := False, wsStatus := Disconnected,
                 chunkTmr := False\<rparr>"
  have n: "snd (flushChunk ?s1) = None"
    using assms by (simp add: flushChunk_flags flushChunk_no_error)
  obtain s2 where f: "flushChunk ?s1 = (s2, None)" using n by (cases "flushChunk ?s1") simp
  have s2: "s2 = (fst (flushChunk s))\<lparr>running := False, isRecording := False,
      wsStatus := Disconnected, chunkTmr := False\<rparr>"
    using f flushChunk_flags(1) [where s = s and a = False and b = False and c = Disconnected
      and d = False] by simp
  have e: "fst (stopRecording s) =
        (addLog RECV (fst (flushChunk s)))
          \<lparr>running := False, isRecording := False, wsStatus := Disconnected,
            chunkTmr := False, procRef := False, streamRef := False, actxRef := False\<rparr>"
    and e2: "snd (stopRecording s) = None"
    by (simp_all add: stopRecording_def Let_def f s2 addLog_def)
  have pb: "pcmBuf (fst (flushChunk s)) = []"
    by (simp add: flushChunk_def Let_def addLog_def processQueue_keeps split: sum.split)
  have b: "pushed (fst (flushChunk s)) \<noteq> pushed s \<longrightarrow> wsBusy (fst (flushChunk s))"
    using flushChunk_busy by blast
  show ?thesis unfolding e e2 using pb b
    by (simp add: addLog_def onaudioprocess_def outstanding_def)
qed

theorem stop_semantics_witness:
  "0 < nativeSR (run (started TARGET_SR) [Frame [1 / 2]])
   \<and> pushed (fst (stopRecording (run (started TARGET_SR) [Frame [1 / 2]])))
        \<noteq> pushed (run (started TARGET_SR) [Frame [1 / 2]])
   \<and> wsBusy (fst (stopRecording (run (started TARGET_SR) [Frame [1 / 2]])))
   \<and> outstanding (fst (stopRecording (run (started TARGET_SR) [Frame [1 / 2]])))
        = [wav_header 1 TARGET_SR @ wav_data [1 / 2]]
   \<and> \<not> procRef (fst (stopRecording (run (started TARGET_SR) [Frame [1 / 2]])))
   \<and> \<not> streamRef (fst (stopRecording (run (started TARGET_SR) [Frame [1 / 2]])))
   \<and> \<not> actxRef (fst (stopRecording (run (started TARGET_SR) [Frame [1 / 2]])))
   \<and> step (fst (stopRecording (run (started TARGET_SR) [Frame [1 / 2]]))) (Frame [1 / 2])
        = fst (stopRecording (run (started TARGET_SR) [Frame [1 / 2]]))"
proof -
  let ?s = "run (started TARGET_SR) [Frame [1 / 2]]"
  have p: "0 < nativeSR ?s" by (simp add: client_eval TARGET_SR_def)
  have f: "pushed (fst (flushChunk ?s)) = [wav_header 1 TARGET_SR @ wav_data [1 / 2]]"
    "outstanding (fst (flushChunk ?s)) = [wav_header 1 TARGET_SR @ wav_data [1 / 2]]"
    "pushed ?s = []"
    by (simp_all add: client_eval)
  note w = stop_semantics [OF p]
  from w have pw: "pushed (fst (stopRecording ?s)) = pushed (fst (flushChunk ?s))"
    and ow: "outstanding (fst (stopRecording ?s)) = outstanding (fst (flushChunk ?s))"
    by blast+
  have n: "pushed (fst (stopRecording ?s)) \<noteq> pushed ?s" unfolding pw using f by simp
  then have b: "wsBusy (fst (stopRecording ?s))" using w by blast
  have o: "outstanding (fst (stopRecording ?s)) = [wav_header 1 TARGET_SR @ wav_data [1 / 2]]"
    unfolding ow using f by simp
  have r: "\<not> procRef (fst (stopRecording ?s))" "\<not> streamRef (fst (stopRecording ?s))"
    "\<not> actxRef (fst (stopRecording ?s))"
    "step (fst (stopRecording ?s)) (Frame [1 / 2]) = fst (stopRecording ?s)"
    using w by blast+
  from p n b o r show ?thesis by blast
qed

section \<open>Failures of a send\<close>

lemma failure_message_keeps:
  "transcript (onmessage k (ServerError m) s) = transcript s
   \<and> nothing_enqueued s (onmessage k (ServerError m) s)
   \<and> capture_unchanged s (onmessage k (ServerError m) s)"
  by (simp add: onmessage_def addLog_def nothing_enqueued_def capture_unchanged_def
      outstanding_def)

lemma onerror_keeps:
  "transcript (onerror k s) = transcript s \<and> nothing_enqueued s (onerror k s)
   \<and> capture_unchanged s (onerror k s)"
  by (simp add: onerror_def addLog_def nothing_enqueued_def capture_unchanged_def
      outstanding_def)

lemma processQueue_capture:
  "transcript (processQueue s) = transcript s" "capture_unchanged s (processQueue s)"
  by (simp_all add: processQueue_def Let_def capture_unchanged_def)

lemma onclose_keeps:
  "transcript (onclose k s) = transcript s \<and> capture_unchanged s (onclose k s)"
  by (simp add: onclose_def processQueue_def Let_def addLog_def capture_unchanged_def)

lemma onEncoded_keeps:
  "transcript (onEncoded k ok s) = transcript s \<and> capture_unchanged s (onEncoded k ok s)"
  by (simp add: onEncoded_def processQueue_def Let_def addLog_def capture_unchanged_def)

text \<open>
  Claim C8. In any state a recording can reach: a server message of type error and a
  socket error change neither the transcript, nor the queue, the chunks pushed or
  dispatched, the send in progress and the busy flag, nor anything of the capture side
  (they only log, and the socket error sets the error banner). When the failed send
  completes, by the close of its socket or by a constructor that throws, the transcript
  is unchanged, nothing is pushed back, the failed chunk is in progress no more and the
  head of the queue, if any, is dispatched; the capture side is as it was, so the
  recording goes on without a restart.
\<close>

theorem chunk_error_independence:
  "let s = run (started sr) evs in
     (\<forall>k m. transcript (step s (Message k (ServerError m))) = transcript s
         \<and> nothing_enqueued s (step s (Message k (ServerError m)))
         \<and> capture_unchanged s (step s (Message k (ServerError m))))
   \<and> (\<forall>k. transcript (step s (SockError k)) = transcript s
         \<and> nothing_enqueued s (step s (SockError k))
         \<and> capture_unchanged s (step s (SockError k)))
   \<and> (\<forall>k < length (sockets s).
         transcript (step s (SockClose k)) = transcript s
         \<and> next_dispatched s (step s (SockClose k))
         \<and> capture_unchanged s (step s (SockClose k)))
   \<and> (\<forall>k < length (encoding s).
         transcript (step s (Encoded k False)) = transcript s
         \<and> next_dispatched s (step s (Encoded k False))
         \<and> capture_unchanged s (step s (Encoded k False)))"
proof -
  let ?s = "run (started sr) evs"
  have i: "transport_inv ?s" using started_inv by (rule run_inv)
  have a: "\<forall>k m. transcript (step ?s (Message k (ServerError m))) = transcript ?s
         \<and> nothing_enqueued ?s (step ?s (Message k (ServerError m)))
         \<and> capture_unchanged ?s (step ?s (Message k (ServerError m)))"
    by (simp add: failure_message_keeps)
  have b: "\<forall>k. transcript (step ?s (SockError k)) = transcript ?s
         \<and> nothing_enqueued ?s (step ?s (SockError k))
         \<and> capture_unchanged ?s (step ?s (SockError k))"
    by (simp add: onerror_keeps)
  have c: "\<forall>k < length (sockets ?s).
         transcript (step ?s (SockClose k)) = transcript ?s
         \<and> next_dispatched ?s (step ?s (SockClose k))
         \<and> capture_unchanged ?s (step ?s (SockClose k))"
    using i by (simp add: onclose_keeps onclose_next)
  have d: "\<forall>k < length (encoding ?s).
         transcript (step ?s (Encoded k False)) = transcript ?s
         \<and> next_dispatched ?s (step ?s (Encoded k False))
         \<and> capture_unchanged ?s (step ?s (Encoded k False))"
    using i by (simp add: onEncoded_keeps onEncoded_fail_next)
  from a b c d show ?thesis unfolding Let_def by (intro conjI)
qed

text \<open>
  The first of two chunks fails: the server answers with an error and closes, or the
  constructor of the socket throws. The second chunk is dispatched and the recording
  runs on.
\<close>

theorem chunk_error_independence_witness:
  "0 < length (sockets (run (started TARGET_SR)
        (two_chunks @ [Encoded 0 True, Message 0 (ServerError [])])))
   \<and> transcript (step (run (started TARGET_SR)
        (two_chunks @ [Encoded 0 True, Message 0 (ServerError [])])) (SockClose 0)) = []
   \<and> outstanding (step (run (started TARGET_SR)
        (two_chunks @ [Encoded 0 True, Message 0 (ServerError [])])) (SockClose 0))
       = [ex_chunk (1 / 4)]
   \<and> wsQueue (step (run (started TARGET_SR)
        (two_chunks @ [Encoded 0 True, Message 0 (ServerError [])])) (SockClose 0)) = []
   \<and> running (step (run (started TARGET_SR)
        (two_chunks @ [Encoded 0 True, Message 0 (ServerError [])])) (SockClose 0))
   \<and> 0 < length (encoding (run (started TARGET_SR) two_chunks))
   \<and> outstanding (step (run (started TARGET_SR) two_chunks) (Encoded 0 False))
       = [ex_chunk (1 / 4)]
   \<and> running (step (run (started TARGET_SR) two_chunks) (Encoded 0 False))"
proof -
  let ?s = "run (started TARGET_SR) (two_chunks @ [Encoded 0 True, Message 0 (ServerError [])])"
  let ?t = "run (started TARGET_SR) two_chunks"
  have s: "sockets ?s = [ex_chunk (1 / 2)]" "wsQueue ?s = [ex_chunk (1 / 4)]"
    "transcript ?s = []" "running ?s"
    by (simp_all add: client_eval two_chunks_def ex_chunk_def)
  have t: "encoding ?t = [ex_chunk (1 / 2)]" "wsQueue ?t = [ex_chunk (1 / 4)]" "running ?t"
    by (simp_all add: client_eval two_chunks_def ex_chunk_def)
  note w1 = chunk_error_independence [of TARGET_SR
       "two_chunks @ [Encoded 0 True, Message 0 (ServerError [])]", unfolded Let_def]
  note w2 = chunk_error_independence [of TARGET_SR two_chunks, unfolded Let_def]
  have c1: "transcript (step ?s (SockClose 0)) = transcript ?s"
    and c2: "next_dispatched ?s (step ?s (SockClose 0))"
    and c3: "capture_unchanged ?s (step ?s (SockClose 0))"
    using w1 s(1) by simp_all
  have d2: "next_dispatched ?t (step ?t (Encoded 0 False))"
    and d3: "capture_unchanged ?t (step ?t (Encoded 0 False))"
    using w2 t(1) by simp_all
  show ?thesis using s t c1 c2 c3 d2 d3
    by (simp add: next_dispatched_def capture_unchanged_def)
qed

section \<open>Properties of the aggregator\<close>

lemma js_trim_split:
  "\<exists>a b. raw = a @ js_trim raw @ b \<and> (\<forall>c \<in> set a. is_ws c) \<and> (\<forall>c \<in> set b. is_ws c)"
proof -
  let ?ys = "dropWhile is_ws raw"
  let ?a = "takeWhile is_ws raw"
  let ?b = "rev (takeWhile is_ws (rev ?ys))"
  have "js_trim raw @ ?b = rev (takeWhile is_ws (rev ?ys) @ dropWhile is_ws (rev ?ys))"
    unfolding js_trim_def by (simp only: rev_append)
  also have "\<dots> = rev (rev ?ys)" by (simp only: takeWhile_dropWhile_id)
  also have "\<dots> = ?ys" by (simp only: rev_rev_ident)
  finally have ys: "?ys = js_trim raw @ ?b" by (rule sym)
  have "raw = ?a @ ?ys" by simp
  then have e: "raw = ?a @ js_trim raw @ ?b" using ys by simp
  have wa: "\<forall>c \<in> set ?a. is_ws c" by (auto dest: set_takeWhileD)
  have wb: "\<forall>c \<in> set ?b. is_ws c" by (auto dest: set_takeWhileD)
  from e wa wb show ?thesis by blast
qed

lemma js_trim_ends:
  assumes "js_trim raw \<noteq> []"
  shows "\<not> is_ws (hd (js_trim raw)) \<and> \<not> is_ws (last (js_trim raw))"
proof -
  let ?ys = "dropWhile is_ws raw"
  let ?zs = "dropWhile is_ws (rev ?ys)"
  have t: "js_trim raw = rev ?zs" by (simp add: js_trim_def)
  have zne: "?zs \<noteq> []" using assms t by simp
  then have l: "\<not> is_ws (hd ?zs)" by (rule hd_dropWhile)
  have la: "last (js_trim raw) = hd ?zs" using zne t by (simp add: last_rev)
  have "rev ?ys \<noteq> []"
  proof
    assume "rev ?ys = []"
    then have "?zs = []" by (simp only: dropWhile.simps)
    with zne show False ..
  qed
  then have yne: "?ys \<noteq> []" by simp
  then have hy: "\<not> is_ws (hd ?ys)" by (rule hd_dropWhile)
  have "hd ?ys \<in> set ?ys" using yne by simp
  have "last (rev ?ys) = hd ?ys" using yne by (simp add: last_rev)
  have "hd (js_trim raw) = last ?zs" using zne t by (simp add: hd_rev)
  also have "\<dots> = last (rev ?ys)"
  proof -
    have "last (takeWhile is_ws (rev ?ys) @ ?zs) = last ?zs" using zne by (rule last_appendR)
    then show ?thesis by (simp only: takeWhile_dropWhile_id)
  qed
  also have "\<dots> = hd ?ys" using yne by (simp add: last_rev)
  finally have "hd (js_trim raw) = hd ?ys" .
  with hy l la show ?thesis by simp
qed

lemma js_trim_Nil: "js_trim [] = []"
  by (simp add: js_trim_def)

lemma append_chunk_tidy:
  assumes "js_trim raw \<noteq> []"
  shows "tidy (append_chunk prev (js_trim raw))"
  using js_trim_ends [OF assms] assms by (simp add: tidy_def append_chunk_def)

lemma onmessage_tidy: "tidy (transcript s) \<Longrightarrow> tidy (transcript (onmessage k m s))"
proof (cases m)
  case (Result v)
  assume t: "tidy (transcript s)"
  show ?thesis
  proof (cases v)
    case Falsy
    with Result t show ?thesis
      by (simp add: onmessage_def result_text_def Let_def addLog_def js_trim_Nil)
  next
    case (Str raw)
    with Result t show ?thesis
      by (cases "js_trim raw = []")
         (simp_all add: onmessage_def result_text_def Let_def addLog_def append_chunk_tidy)
  next
    case NonString
    with Result t show ?thesis
      by (simp add: onmessage_def result_text_def Let_def addLog_def)
  qed
qed (simp_all add: onmessage_def addLog_def)

lemma flushChunk_transcript: "transcript (fst (flushChunk s)) = transcript s"
  by (simp add: flushChunk_def Let_def addLog_def processQueue_capture split: sum.split)

lemma stopRecording_transcript: "transcript (fst (stopRecording s)) = transcript s"
proof -
  let ?s1 = "s\<lparr>running := False, isRecording := False, wsStatus := Disconnected,
                 chunkTmr := False\<rparr>"
  have "transcript (fst (flushChunk ?s1)) = transcript s"
    by (simp add: flushChunk_transcript)
  then show ?thesis
    by (cases "flushChunk ?s1"; cases "snd (flushChunk ?s1)")
       (simp_all add: stopRecording_def Let_def addLog_def)
qed

lemma step_tidy: "tidy (transcript s) \<Longrightarrow> tidy (transcript (step s e))"
proof (cases e)
  case Clear
  assume "tidy (transcript s)"
  with Clear show ?thesis by (simp add: clearTranscript_def tidy_def)
next
  case Save
  assume "tidy (transcript s)"
  with Save show ?thesis by (simp add: saveRecording_def tidy_def)
qed (simp_all add: onmessage_tidy flushChunk_transcript stopRecording_transcript
      onclose_keeps onEncoded_keeps onerror_keeps onaudioprocess_def)

lemma run_tidy: "tidy (transcript s) \<Longrightarrow> tidy (transcript (run s evs))"
  unfolding run_def by (induction evs arbitrary: s) (simp_all add: step_tidy)

lemma started_tidy: "tidy (transcript (started sr))"
  by (simp add: tidy_def started_def)

text \<open>
  Claim C3. In any state a recording can reach, for a result message on an open socket
  with text \<open>raw\<close>: the text used is \<open>raw\<close> without the white space at its two ends. If
  it is not empty it is appended to the transcript, directly when the transcript is
  empty or ends in white space and after exactly one space otherwise. If it is empty
  (also when the field is absent) the transcript is unchanged and only a warning is
  logged. The last conjunct is the rule of the source on any string: the test it makes
  is on the space character alone. The transcript of a recording never ends in white
  space, being empty or the result of such an append, so there the two tests agree.
\<close>

theorem aggregator_append_rule:
  assumes k: "k < length (sockets (run (started sr) evs))"
  shows "let s = run (started sr) evs; txt = js_trim raw;
             s' = step s (Message k (Result (Str raw)))
         in (\<exists>a b. raw = a @ txt @ b \<and> (\<forall>c \<in> set a. is_ws c) \<and> (\<forall>c \<in> set b. is_ws c))
          \<and> (txt \<noteq> [] \<longrightarrow> \<not> is_ws (hd txt) \<and> \<not> is_ws (last txt))
          \<and> (txt \<noteq> [] \<and> (transcript s = [] \<or> is_ws (last (transcript s)))
               \<longrightarrow> transcript s' = transcript s @ txt)
          \<and> (txt \<noteq> [] \<and> transcript s \<noteq> [] \<and> \<not> is_ws (last (transcript s))
               \<longrightarrow> transcript s' = transcript s @ [SPACE] @ txt)
          \<and> (txt = [] \<longrightarrow> transcript s' = transcript s \<and> logs s' = logs (addLog WARN s))
          \<and> transcript (step s (Message k (Result Falsy))) = transcript s
          \<and> (\<forall>prev. append_chunk prev txt =
                (if prev = [] \<or> last prev = SPACE then prev @ txt else prev @ [SPACE] @ txt))"
proof -
  let ?s = "run (started sr) evs"
  let ?txt = "js_trim raw"
  have ti: "tidy (transcript ?s)" using started_tidy by (rule run_tidy)
  note a = js_trim_split [of raw]
  have b: "?txt \<noteq> [] \<longrightarrow> \<not> is_ws (hd ?txt) \<and> \<not> is_ws (last ?txt)"
    using js_trim_ends by blast
  have sp: "is_ws SPACE" by (simp add: is_ws_def SPACE_def)
  have nsp: "transcript ?s \<noteq> [] \<Longrightarrow> last (transcript ?s) \<noteq> SPACE"
    using ti sp by (auto simp: tidy_def)
  have m: "?txt \<noteq> [] \<Longrightarrow> transcript (step ?s (Message k (Result (Str raw))))
      = append_chunk (transcript ?s) ?txt"
    using k by (simp add: onmessage_def result_text_def Let_def addLog_def)
  have c: "?txt \<noteq> [] \<and> (transcript ?s = [] \<or> is_ws (last (transcript ?s)))
       \<longrightarrow> transcript (step ?s (Message k (Result (Str raw)))) = transcript ?s @ ?txt"
    using m ti by (auto simp: tidy_def append_chunk_def)
  have d: "?txt \<noteq> [] \<and> transcript ?s \<noteq> [] \<and> \<not> is_ws (last (transcript ?s))
       \<longrightarrow> transcript (step ?s (Message k (Result (Str raw))))
            = transcript ?s @ [SPACE] @ ?txt"
    using m nsp by (auto simp: append_chunk_def endsWith_space_def)
  have e: "?txt = [] \<longrightarrow> transcript (step ?s (Message k (Result (Str raw)))) = transcript ?s
          \<and> logs (step ?s (Message k (Result (Str raw)))) = logs (addLog WARN ?s)"
    using k by (simp add: onmessage_def result_text_def Let_def addLog_def)
  have f: "transcript (step ?s (Message k (Result Falsy))) = transcript ?s"
    using k by (simp add: onmessage_def result_text_def Let_def addLog_def js_trim_Nil)
  have g: "\<forall>prev. append_chunk prev ?txt =
         (if prev = [] \<or> last prev = SPACE then prev @ ?txt else prev @ [SPACE] @ ?txt)"
    by (simp add: append_chunk_def endsWith_space_def)
  from a b c d e f g show ?thesis unfolding Let_def by (intro conjI)
qed

text \<open>
  Three results on the socket of the first chunk: the first text opens the transcript,
  the second follows after one space, the third is blank and changes nothing.
\<close>

theorem aggregator_append_rule_witness:
  "0 < length (sockets (run (started TARGET_SR) [Frame [1 / 2], Tick, Encoded 0 True]))
   \<and> js_trim (js ''  bonjour '') = js ''bonjour''
   \<and> transcript (run (started TARGET_SR) [Frame [1 / 2], Tick, Encoded 0 True]) = []
   \<and> transcript (run (started TARGET_SR)
        [Frame [1 / 2], Tick, Encoded 0 True, Message 0 (Result (Str (js ''  bonjour ''))),
         Message 0 (Result (Str (js '' docteur''))),
         Message 0 (Result (Str (js ''   '')))])
      = js ''bonjour docteur''"
proof -
  let ?e0 = "[Frame [1 / 2], Tick, Encoded 0 True]"
  let ?e1 = "[Frame [1 / 2], Tick, Encoded 0 True, Message 0 (Result (Str (js ''  bonjour '')))]"
  let ?e2 = "[Frame [1 / 2], Tick, Encoded 0 True, Message 0 (Result (Str (js ''  bonjour ''))),
         Message 0 (Result (Str (js '' docteur'')))]"
  let ?e3 = "[Frame [1 / 2], Tick, Encoded 0 True, Message 0 (Result (Str (js ''  bonjour ''))),
         Message 0 (Result (Str (js '' docteur''))),
         Message 0 (Result (Str (js ''   '')))]"
  have r1: "run (started TARGET_SR) ?e1
      = step (run (started TARGET_SR) ?e0) (Message 0 (Result (Str (js ''  bonjour ''))))"
    and r2: "run (started TARGET_SR) ?e2
      = step (run (started TARGET_SR) ?e1) (Message 0 (Result (Str (js '' docteur''))))"
    and r3: "run (started TARGET_SR) ?e3
      = step (run (started TARGET_SR) ?e2) (Message 0 (Result (Str (js ''   ''))))"
    by (simp_all add: run_def)
  have k: "0 < length (sockets (run (started TARGET_SR) ?e0))"
    "0 < length (sockets (run (started TARGET_SR) ?e1))"
    "0 < length (sockets (run (started TARGET_SR) ?e2))"
    "transcript (run (started TARGET_SR) ?e0) = []"
    by (simp_all add: client_eval result_text_def)
  have t: "js_trim (js ''  bonjour '') = js ''bonjour''"
    "js_trim (js '' docteur'') = js ''docteur''" "js_trim (js ''   '') = []"
    by (simp_all add: js_trim_def js_def is_ws_def)
  have n: "\<not> is_ws (last (js ''bonjour''))" "js ''bonjour'' \<noteq> []" "js ''docteur'' \<noteq> []"
    by (simp_all add: js_def is_ws_def)
  note w1 = aggregator_append_rule [OF k(1), of "js ''  bonjour ''", unfolded Let_def]
  note w2 = aggregator_append_rule [OF k(2), of "js '' docteur''", unfolded Let_def]
  note w3 = aggregator_append_rule [OF k(3), of "js ''   ''", unfolded Let_def]
  have a1: "transcript (run (started TARGET_SR) ?e1) = js ''bonjour''"
    unfolding r1 using w1 t n k(4) by simp
  have a2: "transcript (run (started TARGET_SR) ?e2) = js ''bonjour'' @ [SPACE] @ js ''docteur''"
    unfolding r2 using w2 t n a1 by simp
  have a3: "transcript (run (started TARGET_SR) ?e3) = js ''bonjour'' @ [SPACE] @ js ''docteur''"
    unfolding r3 using w3 t a2 by simp
  have j: "js ''bonjour'' @ [SPACE] @ js ''docteur'' = js ''bonjour docteur''"
    by (simp add: js_def SPACE_def)
  from k t a3 j show ?thesis by simp
qed

end
